theory Spec2Isabelle
  imports Complex_Main "HOL-Library.Word" "HOL-Library.Log_Nat"
begin

unbundle bit_operations_syntax

section \<open>Packet codec and link-health monitor (AppPacket)\<close>

text \<open>
  Shallow embedding of \<^verbatim>\<open>src/app/AppPacket.cpp\<close>. Fixed-width fields are words,
  \<^verbatim>\<open>size_t\<close> values are natural numbers (no \<^verbatim>\<open>size_t\<close> computation of the class gets
  near its range: lengths are bounded by the 16-bit header field), a byte region is a
  list of bytes and a pointer is an optional region, \<open>None\<close> standing for \<^verbatim>\<open>nullptr\<close>.
  A \<^verbatim>\<open>steady_clock::time_point\<close> is the integer number of nanoseconds of its tick
  count; every function that reads the clock takes the reading \<open>now\<close> as an argument.
\<close>

type_synonym byte = "8 word"

subsection \<open>Constants (AppPacket.hpp)\<close>

definition APP_PACKET_MAX_DATA_SIZE :: nat where
  "APP_PACKET_MAX_DATA_SIZE = 256"

definition APP_PACKET_COMM_TIMEOUT_MS :: "32 word" where
  "APP_PACKET_COMM_TIMEOUT_MS = 1000"

definition APP_PACKET_EXPECTED_INTERVAL_MS :: "32 word" where
  "APP_PACKET_EXPECTED_INTERVAL_MS = 100"

definition APP_PACKET_INTERVAL_TOLERANCE_US :: "32 word" where
  "APP_PACKET_INTERVAL_TOLERANCE_US = 5000"

text \<open>\<^verbatim>\<open>sizeof(AppPacketHeader)\<close> (4 + 2 + 2 bytes, no padding) and \<^verbatim>\<open>sizeof(AppPacketFooter)\<close>.\<close>

definition HEADER_SIZE :: nat where
  "HEADER_SIZE = 8"

definition FOOTER_SIZE :: nat where
  "FOOTER_SIZE = 4"

definition CRC32_POLYNOMIAL :: "32 word" where
  "CRC32_POLYNOMIAL = 0xEDB88320"

subsection \<open>CRC-32\<close>

text \<open>One pass of the inner loop body of \<^verbatim>\<open>calculateCrc32\<close>.\<close>

definition crc_shift :: "32 word \<Rightarrow> 32 word" where
  "crc_shift crc =
     (if crc AND 1 \<noteq> 0 then drop_bit 1 crc XOR CRC32_POLYNOMIAL else drop_bit 1 crc)"

text \<open>The inner loop \<^verbatim>\<open>for (bit = 0; bit < 8; bit++)\<close>, counted down.\<close>

primrec crc_bits :: "nat \<Rightarrow> 32 word \<Rightarrow> 32 word" where
  "crc_bits 0 crc = crc"
| "crc_bits (Suc n) crc = crc_bits n (crc_shift crc)"

text \<open>The body of the outer loop for one input byte.\<close>

definition crc_byte :: "byte \<Rightarrow> 32 word \<Rightarrow> 32 word" where
  "crc_byte b crc = crc_bits 8 (crc XOR ucast b)"

text \<open>The outer loop over \<^verbatim>\<open>data[0 .. length)\<close>.\<close>

primrec crc_loop :: "byte list \<Rightarrow> 32 word \<Rightarrow> 32 word" where
  "crc_loop [] crc = crc"
| "crc_loop (b # bs) crc = crc_loop bs (crc_byte b crc)"

definition calculateCrc32 :: "byte list \<Rightarrow> nat \<Rightarrow> 32 word" where
  "calculateCrc32 data len = crc_loop (take len data) 0xFFFFFFFF XOR 0xFFFFFFFF"

subsection \<open>Wire layout\<close>

text \<open>
  \<^verbatim>\<open>encode\<close> and \<^verbatim>\<open>decode\<close> move the header and footer structs to and from the buffer
  with \<^verbatim>\<open>memmove\<close>; the bytes are those of the fields in the little-endian layout without
  padding that the wire format fixes.
\<close>

definition le16 :: "16 word \<Rightarrow> byte list" where
  "le16 w = [ucast w, ucast (drop_bit 8 w)]"

definition le32 :: "32 word \<Rightarrow> byte list" where
  "le32 w = [ucast w, ucast (drop_bit 8 w), ucast (drop_bit 16 w), ucast (drop_bit 24 w)]"

definition rd16 :: "byte list \<Rightarrow> nat \<Rightarrow> 16 word" where
  "rd16 buf off = ucast (buf ! off) OR push_bit 8 (ucast (buf ! (off + 1)))"

definition rd32 :: "byte list \<Rightarrow> nat \<Rightarrow> 32 word" where
  "rd32 buf off =
     ucast (buf ! off) OR push_bit 8 (ucast (buf ! (off + 1)))
       OR push_bit 16 (ucast (buf ! (off + 2))) OR push_bit 24 (ucast (buf ! (off + 3)))"

text \<open>The memory image of an \<^verbatim>\<open>AppPacketHeader\<close> and of an \<^verbatim>\<open>AppPacketFooter\<close>.\<close>

definition AppPacketHeader_bytes :: "32 word \<Rightarrow> 16 word \<Rightarrow> 16 word \<Rightarrow> byte list" where
  "AppPacketHeader_bytes unique_id lifesign data_length =
     le32 unique_id @ le16 lifesign @ le16 data_length"

definition AppPacketFooter_bytes :: "32 word \<Rightarrow> byte list" where
  "AppPacketFooter_bytes crc32 = le32 crc32"

text \<open>\<^verbatim>\<open>memmove(&buffer[off], src, n)\<close> with \<open>bs\<close> the \<open>n\<close> source bytes.\<close>

definition memmove_at :: "byte list \<Rightarrow> nat \<Rightarrow> byte list \<Rightarrow> byte list" where
  "memmove_at buffer off bs = take off buffer @ bs @ drop (off + length bs) buffer"

subsection \<open>The packet object\<close>

datatype AppPacketError =
    None_err
  | InvalidDataPointer
  | DataTooLarge
  | BufferTooSmall
  | InvalidPacket
  | CrcMismatch
  | UnstableCommunication
  | LossOfCommunication

record AppPacket =
  m_unique_id :: "32 word"
  m_lifesign :: "16 word"
  m_data_ptr :: "byte list option"
  m_data_length :: nat
  m_crc32 :: "32 word"
  m_rx_lifesign :: "16 word"
  m_rx_lifesign_prev :: "16 word"
  m_last_change_time :: int
  m_last_recv_time :: int
  m_comm_timeout_ms :: "32 word"
  m_expected_interval_ms :: "32 word"
  m_tolerance_us :: "32 word"
  m_last_interval_us :: "32 word"
  m_unstable_counter :: "16 word"
  m_comm_unstable :: bool
  m_error :: AppPacketError

text \<open>The constructor reads the clock twice: \<open>t1\<close> and \<open>t2\<close> are the two readings.\<close>

definition AppPacket_ctor :: "int \<Rightarrow> int \<Rightarrow> AppPacket" where
  "AppPacket_ctor t1 t2 =
     \<lparr> m_unique_id = 0, m_lifesign = 0, m_data_ptr = None, m_data_length = 0, m_crc32 = 0,
       m_rx_lifesign = 0, m_rx_lifesign_prev = 0,
       m_last_change_time = t1, m_last_recv_time = t2,
       m_comm_timeout_ms = APP_PACKET_COMM_TIMEOUT_MS,
       m_expected_interval_ms = APP_PACKET_EXPECTED_INTERVAL_MS,
       m_tolerance_us = APP_PACKET_INTERVAL_TOLERANCE_US,
       m_last_interval_us = 0, m_unstable_counter = 0, m_comm_unstable = False,
       m_error = None_err \<rparr>"

definition setUniqueId :: "AppPacket \<Rightarrow> 32 word \<Rightarrow> AppPacket" where
  "setUniqueId s ident = s\<lparr>m_unique_id := ident\<rparr>"

definition setDataPointer :: "AppPacket \<Rightarrow> byte list option \<Rightarrow> nat \<Rightarrow> AppPacket" where
  "setDataPointer s data len =
     (if data = None then
        s\<lparr>m_error := InvalidDataPointer, m_data_ptr := None, m_data_length := 0\<rparr>
      else if len > APP_PACKET_MAX_DATA_SIZE then
        s\<lparr>m_error := DataTooLarge, m_data_ptr := None, m_data_length := 0\<rparr>
      else
        s\<lparr>m_error := None_err, m_data_ptr := data, m_data_length := len\<rparr>)"

text \<open>
  \<^verbatim>\<open>encode\<close> returns the byte count, the buffer after the call and the packet after the
  call. The payload bytes copied are the first \<open>m_data_length\<close> bytes behind \<open>m_data_ptr\<close>.
\<close>

definition encode ::
  "AppPacket \<Rightarrow> byte list option \<Rightarrow> nat \<Rightarrow> nat \<times> byte list option \<times> AppPacket" where
  "encode s buffer buffer_size =
     (let total_size = HEADER_SIZE + m_data_length s + FOOTER_SIZE in
      case buffer of
        None \<Rightarrow> (0, None, s\<lparr>m_error := InvalidDataPointer\<rparr>)
      | Some buf \<Rightarrow>
          if buffer_size < total_size then (0, Some buf, s\<lparr>m_error := BufferTooSmall\<rparr>)
          else
            let header = AppPacketHeader_bytes (m_unique_id s) (m_lifesign s)
                           (word_of_nat (m_data_length s));
                buf1 = memmove_at buf 0 header;
                off1 = HEADER_SIZE;
                (buf2, off2) =
                  (case m_data_ptr s of
                     Some d \<Rightarrow>
                       if m_data_length s > 0
                       then (memmove_at buf1 off1 (take (m_data_length s) d),
                             off1 + m_data_length s)
                       else (buf1, off1)
                   | None \<Rightarrow> (buf1, off1));
                crc = calculateCrc32 buf2 off2;
                buf3 = memmove_at buf2 off2 (AppPacketFooter_bytes crc);
                off3 = off2 + FOOTER_SIZE
            in (off3, Some buf3,
                s\<lparr>m_crc32 := crc, m_error := None_err, m_lifesign := m_lifesign s + 1\<rparr>))"

text \<open>
  \<^verbatim>\<open>duration_cast\<close> to a coarser unit divides the signed 64-bit tick count, truncating
  towards zero.
\<close>

definition duration_cast :: "int \<Rightarrow> int \<Rightarrow> int" where
  "duration_cast ticks per = sgn ticks * (\<bar>ticks\<bar> div per)"

text \<open>
  \<^verbatim>\<open>updateReceivedLifesign\<close>, block by block. First the interval since the last receive,
  cast to 32 bits, and the new receive instant.
\<close>

definition measure_interval :: "AppPacket \<Rightarrow> int \<Rightarrow> AppPacket" where
  "measure_interval s now =
     s\<lparr>m_last_interval_us := word_of_int (duration_cast (now - m_last_recv_time s) 1000),
       m_last_recv_time := now\<rparr>"

text \<open>The stability check on \<open>m_last_interval_us\<close>, in 32-bit unsigned arithmetic.\<close>

definition check_stability :: "AppPacket \<Rightarrow> AppPacket" where
  "check_stability s =
     (let expected_us = m_expected_interval_ms s * 1000;
          lower_bound = (if expected_us > m_tolerance_us s
                         then expected_us - m_tolerance_us s else 0);
          upper_bound = expected_us + m_tolerance_us s
      in if m_last_interval_us s < lower_bound \<or> m_last_interval_us s > upper_bound then
           s\<lparr>m_unstable_counter :=
                (if m_unstable_counter s < 0xFFFF then m_unstable_counter s + 1
                 else m_unstable_counter s),
              m_comm_unstable := True,
              m_error := (if m_error s = None_err then UnstableCommunication else m_error s)\<rparr>
         else
           s\<lparr>m_unstable_counter := 0,
              m_comm_unstable := False,
              m_error := (if m_error s = UnstableCommunication then None_err else m_error s)\<rparr>)"

text \<open>The lifesign tracking, which restamps the change instant when the lifesign differs.\<close>

definition track_lifesign :: "AppPacket \<Rightarrow> int \<Rightarrow> 16 word \<Rightarrow> AppPacket" where
  "track_lifesign s now lifesign =
     (let s1 = s\<lparr>m_rx_lifesign_prev := m_rx_lifesign s, m_rx_lifesign := lifesign\<rparr>
      in if m_rx_lifesign s1 \<noteq> m_rx_lifesign_prev s1 then
           s1\<lparr>m_last_change_time := now,
               m_error := (if m_error s1 = LossOfCommunication then None_err else m_error s1)\<rparr>
         else s1)"

definition updateReceivedLifesign :: "AppPacket \<Rightarrow> int \<Rightarrow> 16 word \<Rightarrow> AppPacket" where
  "updateReceivedLifesign s now lifesign =
     track_lifesign (check_stability (measure_interval s now)) now lifesign"

text \<open>
  \<^verbatim>\<open>decode\<close> returns the result flag and the packet after the call; \<open>now\<close> is the
  clock reading that \<^verbatim>\<open>updateReceivedLifesign\<close> takes. The payload view stored on the way
  is the region starting at \<^verbatim>\<open>&buffer[HEADER_SIZE]\<close>.
\<close>

definition decode :: "AppPacket \<Rightarrow> byte list option \<Rightarrow> nat \<Rightarrow> int \<Rightarrow> bool \<times> AppPacket" where
  "decode s buffer buffer_size now =
     (case buffer of
        None \<Rightarrow> (False, s\<lparr>m_error := InvalidDataPointer\<rparr>)
      | Some buf \<Rightarrow>
          if buffer_size < HEADER_SIZE + FOOTER_SIZE then (False, s\<lparr>m_error := InvalidPacket\<rparr>)
          else
            let h_unique_id = rd32 buf 0;
                h_lifesign = rd16 buf 4;
                h_data_length = rd16 buf 6;
                off1 = HEADER_SIZE;
                expected_size = HEADER_SIZE + unat h_data_length + FOOTER_SIZE
            in if buffer_size < expected_size then (False, s\<lparr>m_error := InvalidPacket\<rparr>)
               else if unat h_data_length > APP_PACKET_MAX_DATA_SIZE
               then (False, s\<lparr>m_error := DataTooLarge\<rparr>)
               else
                 let s1 = s\<lparr>m_unique_id := h_unique_id, m_data_length := unat h_data_length\<rparr>;
                     s2 = updateReceivedLifesign s1 now h_lifesign;
                     s3 = (if m_data_length s2 > 0
                           then s2\<lparr>m_data_ptr := Some (drop off1 buf)\<rparr>
                           else s2\<lparr>m_data_ptr := None\<rparr>);
                     off2 = off1 + m_data_length s3;
                     s4 = s3\<lparr>m_crc32 := rd32 buf off2\<rparr>;
                     computed_crc = calculateCrc32 buf (HEADER_SIZE + m_data_length s4)
                 in if computed_crc \<noteq> m_crc32 s4 then (False, s4\<lparr>m_error := CrcMismatch\<rparr>)
                    else (True, s4\<lparr>m_error := None_err\<rparr>))"

definition getUniqueId :: "AppPacket \<Rightarrow> 32 word" where
  "getUniqueId s = m_unique_id s"

definition getLifesign :: "AppPacket \<Rightarrow> 16 word" where
  "getLifesign s = m_lifesign s"

definition getReceivedLifesign :: "AppPacket \<Rightarrow> 16 word" where
  "getReceivedLifesign s = m_rx_lifesign s"

definition getData :: "AppPacket \<Rightarrow> byte list option" where
  "getData s = m_data_ptr s"

definition getDataLength :: "AppPacket \<Rightarrow> nat" where
  "getDataLength s = m_data_length s"

definition getCrc32 :: "AppPacket \<Rightarrow> 32 word" where
  "getCrc32 s = m_crc32 s"

definition getError :: "AppPacket \<Rightarrow> AppPacketError" where
  "getError s = m_error s"

definition isCommLost :: "AppPacket \<Rightarrow> int \<Rightarrow> bool" where
  "isCommLost s now =
     (let elapsed_ms = duration_cast (now - m_last_change_time s) 1000000
      in (word_of_int elapsed_ms :: 32 word) \<ge> m_comm_timeout_ms s)"

definition isCommUnstable :: "AppPacket \<Rightarrow> bool" where
  "isCommUnstable s = m_comm_unstable s"

definition getLastIntervalUs :: "AppPacket \<Rightarrow> 32 word" where
  "getLastIntervalUs s = m_last_interval_us s"

definition getUnstableCounter :: "AppPacket \<Rightarrow> 16 word" where
  "getUnstableCounter s = m_unstable_counter s"

definition setCommTimeout :: "AppPacket \<Rightarrow> 32 word \<Rightarrow> AppPacket" where
  "setCommTimeout s timeout_ms = s\<lparr>m_comm_timeout_ms := timeout_ms\<rparr>"

definition setExpectedInterval :: "AppPacket \<Rightarrow> 32 word \<Rightarrow> 32 word \<Rightarrow> AppPacket" where
  "setExpectedInterval s interval_ms tolerance_us =
     s\<lparr>m_expected_interval_ms := interval_ms, m_tolerance_us := tolerance_us\<rparr>"

definition resetCommMonitor :: "AppPacket \<Rightarrow> int \<Rightarrow> AppPacket" where
  "resetCommMonitor s now =
     (let s1 = s\<lparr>m_rx_lifesign := 0, m_rx_lifesign_prev := 0,
                  m_last_change_time := now, m_last_recv_time := now,
                  m_last_interval_us := 0, m_unstable_counter := 0, m_comm_unstable := False\<rparr>
      in if m_error s1 = LossOfCommunication \<or> m_error s1 = UnstableCommunication
         then s1\<lparr>m_error := None_err\<rparr> else s1)"

text \<open>
  The bytes a reader of the payload view sees: \<open>m_data_length\<close> bytes behind
  \<open>m_data_ptr\<close>, none for a null view.
\<close>

definition payload_view :: "AppPacket \<Rightarrow> byte list" where
  "payload_view s = (case getData s of None \<Rightarrow> [] | Some d \<Rightarrow> take (getDataLength s) d)"

text \<open>The link-health state of the receive side (error slot apart).\<close>

definition link_health ::
  "AppPacket \<Rightarrow> 16 word \<times> 16 word \<times> int \<times> int \<times> 32 word \<times> 16 word \<times> bool" where
  "link_health s =
     (m_rx_lifesign s, m_rx_lifesign_prev s, m_last_change_time s, m_last_recv_time s,
      m_last_interval_us s, m_unstable_counter s, m_comm_unstable s)"

text \<open>
  The frame that the wire format prescribes for an identifier, a lifesign and a payload:
  header, payload, CRC over both.
\<close>

definition frame_of :: "32 word \<Rightarrow> 16 word \<Rightarrow> byte list \<Rightarrow> byte list" where
  "frame_of uid ls payload =
     (let body = AppPacketHeader_bytes uid ls (word_of_nat (length payload)) @ payload
      in body @ AppPacketFooter_bytes (calculateCrc32 body (length body)))"

text \<open>The condition of the stability branch, as the code computes it on 32-bit words.\<close>

definition out_of_tolerance :: "32 word \<Rightarrow> 32 word \<Rightarrow> 32 word \<Rightarrow> bool" where
  "out_of_tolerance expected_ms tol interval_us =
     (let expected_us = expected_ms * 1000;
          lower_bound = (if expected_us > tol then expected_us - tol else 0);
          upper_bound = expected_us + tol
      in interval_us < lower_bound \<or> interval_us > upper_bound)"

text \<open>The spec's classification, on mathematical integers.\<close>

definition in_tolerance :: "int \<Rightarrow> int \<Rightarrow> int \<Rightarrow> bool" where
  "in_tolerance E T interval_us = (max 0 (E - T) \<le> interval_us \<and> interval_us \<le> E + T)"

section \<open>SPSC ring buffer (LockFreeRingBuffer)\<close>

text \<open>
  Shallow embedding of \<^verbatim>\<open>include/thread/LockFreeRingBuffer.hpp\<close>, as run by one thread at
  a time: an atomic load or store is a read or write of the field. The template
  parameters \<open>MaxPacketSize\<close> and \<open>Capacity\<close> are arguments of the operations that use
  them. The fields of \<^verbatim>\<open>Packet\<close> are \<open>pkt_length\<close> and \<open>pkt_data\<close>, since \<open>length\<close> is taken.
  \<open>m_buffer\<close> is the array of \<open>Capacity\<close> slots.
\<close>

record Packet =
  pkt_length :: "16 word"
  pkt_data :: "byte list"

record LockFreeRingBuffer =
  m_buffer :: "Packet list"
  m_writeIdx :: nat
  m_readIdx :: nat

text \<open>The constructor zeroes the indices and leaves the slots as they are in memory.\<close>

definition LockFreeRingBuffer_ctor :: "Packet list \<Rightarrow> LockFreeRingBuffer" where
  "LockFreeRingBuffer_ctor slots = \<lparr> m_buffer = slots, m_writeIdx = 0, m_readIdx = 0 \<rparr>"

text \<open>
  \<^verbatim>\<open>push(data, length)\<close>: the flag returned and the buffer after the call. \<^verbatim>\<open>memcpy\<close>
  overwrites the first \<open>len\<close> bytes of the slot's array with those behind \<open>src\<close>.
\<close>

definition push ::
  "nat \<Rightarrow> nat \<Rightarrow> LockFreeRingBuffer \<Rightarrow> byte list \<Rightarrow> nat \<Rightarrow> bool \<times> LockFreeRingBuffer" where
  "push MaxPacketSize Capacity rb src len =
     (if len > MaxPacketSize then (False, rb)
      else
        let currentWrite = m_writeIdx rb;
            nextWrite = (currentWrite + 1) mod Capacity
        in if nextWrite = m_readIdx rb then (False, rb)
           else
             let slot = m_buffer rb ! currentWrite;
                 slot' = slot\<lparr>pkt_length := word_of_nat len,
                              pkt_data := take len src @ drop len (pkt_data slot)\<rparr>
             in (True, rb\<lparr>m_buffer := (m_buffer rb)[currentWrite := slot'],
                         m_writeIdx := nextWrite\<rparr>))"

text \<open>
  \<^verbatim>\<open>pop(data, maxLength, actualLength)\<close>: the flag returned, the output region and the
  variable behind the reference \<open>actualLength\<close> after the call, and the buffer after the
  call; \<open>dst\<close> and \<open>actualLength\<close> are the region and the variable before the call.
\<close>

definition pop ::
  "nat \<Rightarrow> LockFreeRingBuffer \<Rightarrow> byte list \<Rightarrow> nat \<Rightarrow> nat
     \<Rightarrow> bool \<times> byte list \<times> nat \<times> LockFreeRingBuffer" where
  "pop Capacity rb dst maxLength actualLength =
     (let currentRead = m_readIdx rb
      in if currentRead = m_writeIdx rb then (False, dst, actualLength, rb)
         else
           let actualLength' = unat (pkt_length (m_buffer rb ! currentRead))
           in if actualLength' > maxLength then (False, dst, actualLength', rb)
              else
                (True,
                 take actualLength' (pkt_data (m_buffer rb ! currentRead))
                   @ drop actualLength' dst,
                 actualLength',
                 rb\<lparr>m_readIdx := (currentRead + 1) mod Capacity\<rparr>))"

definition size_rb :: "nat \<Rightarrow> LockFreeRingBuffer \<Rightarrow> nat" where
  "size_rb Capacity rb =
     (let w = m_writeIdx rb; r = m_readIdx rb
      in if w \<ge> r then w - r else Capacity - r + w)"

definition isEmpty :: "LockFreeRingBuffer \<Rightarrow> bool" where
  "isEmpty rb = (m_readIdx rb = m_writeIdx rb)"

definition isFull :: "nat \<Rightarrow> LockFreeRingBuffer \<Rightarrow> bool" where
  "isFull Capacity rb =
     (let currentWrite = m_writeIdx rb;
          nextWrite = (currentWrite + 1) mod Capacity
      in nextWrite = m_readIdx rb)"

text \<open>
  A producer pushing a sequence of packets with no pop in between: the flags returned, in
  order, and the buffer at the end.
\<close>

fun push_all ::
  "nat \<Rightarrow> nat \<Rightarrow> LockFreeRingBuffer \<Rightarrow> (byte list \<times> nat) list
     \<Rightarrow> bool list \<times> LockFreeRingBuffer" where
  "push_all MaxPacketSize Capacity rb [] = ([], rb)"
| "push_all MaxPacketSize Capacity rb ((src, len) # ps) =
     (case push MaxPacketSize Capacity rb src len of
        (ok, rb') \<Rightarrow>
          (case push_all MaxPacketSize Capacity rb' ps of
             (oks, rb'') \<Rightarrow> (ok # oks, rb'')))"

section \<open>Latency sampler (LatencyStats)\<close>

text \<open>
  Shallow embedding of \<^verbatim>\<open>include/stats/LatencyStats.hpp\<close>, as run by one thread at a
  time. The template parameter \<open>Capacity\<close> is an argument. The write index is
  \<open>m_writeIdx_stats\<close>, since the ring buffer has an \<open>m_writeIdx\<close>. The total count
  \<open>m_count\<close>, a 64-bit counter that one call advances by one, is a natural number, as
  the \<^verbatim>\<open>size_t\<close> values are: no run counts to 2^64.
\<close>

record LatencyStats =
  m_samples :: "64 word list"
  m_writeIdx_stats :: nat
  m_count :: nat

definition LatencyStats_ctor :: "nat \<Rightarrow> LatencyStats" where
  "LatencyStats_ctor Capacity =
     \<lparr> m_samples = replicate Capacity 0, m_writeIdx_stats = 0, m_count = 0 \<rparr>"

definition recordSample :: "nat \<Rightarrow> LatencyStats \<Rightarrow> 64 word \<Rightarrow> LatencyStats" where
  "recordSample Capacity st latency_ns =
     (let idx = m_writeIdx_stats st
      in st\<lparr>m_samples := (m_samples st)[idx := latency_ns],
            m_writeIdx_stats := (idx + 1) mod Capacity,
            m_count := m_count st + 1\<rparr>)"

text \<open>
  The snapshot that \<^verbatim>\<open>computeStats\<close> copies into its vector before sorting it: the first
  \<open>numSamples\<close> slots while the buffer has not wrapped, the slots from the write position
  to the end followed by those before it afterwards.
\<close>

definition snapshot :: "nat \<Rightarrow> LatencyStats \<Rightarrow> 64 word list" where
  "snapshot Capacity st =
     (let totalCount = m_count st;
          numSamples = (if totalCount < Capacity then totalCount else Capacity)
      in if totalCount \<le> Capacity then take numSamples (m_samples st)
         else
           let writePos = m_writeIdx_stats st
           in drop writePos (m_samples st) @ take writePos (m_samples st))"

text \<open>Recording a sequence of samples one after the other.\<close>

definition record_all :: "nat \<Rightarrow> LatencyStats \<Rightarrow> 64 word list \<Rightarrow> LatencyStats" where
  "record_all Capacity st xs = foldl (recordSample Capacity) st xs"

subsection \<open>Double-precision arithmetic\<close>

text \<open>
  \<^verbatim>\<open>computeStats\<close> and \<^verbatim>\<open>percentile\<close> compute in \<^verbatim>\<open>double\<close>. A finite double is
  represented by the real number it denotes, and every operation is the exact operation
  followed by rounding to the nearest number with a 53-bit significand, ties to the even
  significand: IEEE 754 binary64 arithmetic in its default rounding mode, evaluated in
  double precision. The exponent is not bounded, which agrees with binary64 wherever
  neither overflow nor a subnormal result occurs; the magnitudes met here (64-bit counts
  of nanoseconds, their thousandths, sums of at most \<open>Capacity\<close> of them, ranks) are
  within that range.
\<close>

text \<open>\<open>ilog2 x\<close> is the integer part of the binary logarithm of a positive \<open>x\<close>.\<close>

definition ilog2 :: "real \<Rightarrow> int" where
  "ilog2 x = (if 1 \<le> x then int (floorlog 2 (nat \<lfloor>x\<rfloor>)) - 1
              else - int (floorlog 2 (nat (\<lceil>1 / x\<rceil> - 1))))"

definition round_half_even :: "real \<Rightarrow> int" where
  "round_half_even m =
     (let f = \<lfloor>m\<rfloor>; d = m - of_int f
      in if d < 1 / 2 then f else if 1 / 2 < d then f + 1 else if even f then f else f + 1)"

text \<open>
  Rounding to double: the significand of \<open>x\<close> at exponent \<open>e = ilog2 \<bar>x\<bar> - 52\<close> lies
  in [2^52, 2^53) and is rounded to an integer.
\<close>

definition to_double :: "real \<Rightarrow> real" where
  "to_double x =
     (if x = 0 then 0
      else let e = ilog2 \<bar>x\<bar> - 52
           in if 0 \<le> e
              then sgn x * of_int (round_half_even (\<bar>x\<bar> / 2 ^ nat e)) * 2 ^ nat e
              else sgn x * of_int (round_half_even (\<bar>x\<bar> * 2 ^ nat (- e))) / 2 ^ nat (- e))"

definition d_add :: "real \<Rightarrow> real \<Rightarrow> real" where
  "d_add a b = to_double (a + b)"

definition d_mul :: "real \<Rightarrow> real \<Rightarrow> real" where
  "d_mul a b = to_double (a * b)"

definition d_div :: "real \<Rightarrow> real \<Rightarrow> real" where
  "d_div a b = to_double (a / b)"

text \<open>\<^verbatim>\<open>static_cast<double>\<close> of a \<^verbatim>\<open>size_t\<close> and of a \<^verbatim>\<open>uint64_t\<close>.\<close>

definition d_of_nat :: "nat \<Rightarrow> real" where
  "d_of_nat n = to_double (real n)"

definition d_of_u64 :: "64 word \<Rightarrow> real" where
  "d_of_u64 w = to_double (real (unat w))"

subsection \<open>Statistics\<close>

text \<open>
  \<^verbatim>\<open>percentile(sorted, p)\<close>; the vector is \<open>sorted_v\<close>, since \<open>sorted\<close> is taken.
  \<^verbatim>\<open>std::ceil\<close> of a double is exact, and the cast to \<^verbatim>\<open>size_t\<close> of its non-negative
  result is that integer.
\<close>

definition percentile :: "64 word list \<Rightarrow> real \<Rightarrow> real" where
  "percentile sorted_v p =
     (if sorted_v = [] then 0
      else
        let rank = d_mul (d_div p 100) (d_of_nat (length sorted_v));
            idx = nat \<lceil>rank\<rceil>;
            idx1 = (if idx = 0 then 1 else idx);
            idx2 = (if idx1 > length sorted_v then length sorted_v else idx1)
        in d_div (d_of_u64 (sorted_v ! (idx2 - 1))) 1000)"

text \<open>
  The result of \<^verbatim>\<open>computeStats\<close>, without \<open>stdev_us\<close>, which no property below is about.
\<close>

record Result =
  count :: nat
  min_us :: real
  max_us :: real
  mean_us :: real
  p50_us :: real
  p95_us :: real
  p99_us :: real
  p999_us :: real
  p9999_us :: real

text \<open>
  \<^verbatim>\<open>computeStats\<close>: the snapshot is sorted (\<^verbatim>\<open>std::sort\<close> yields the ascending arrangement
  of the values), the loop sums the samples in microseconds in index order, and the
  percentiles are taken at the doubles nearest to 50, 95, 99, 99.9 and 99.99.
\<close>

definition computeStats :: "nat \<Rightarrow> LatencyStats \<Rightarrow> Result" where
  "computeStats Capacity st =
     (let totalCount = m_count st
      in if totalCount = 0 then
           \<lparr> count = 0, min_us = 0, max_us = 0, mean_us = 0,
             p50_us = 0, p95_us = 0, p99_us = 0, p999_us = 0, p9999_us = 0 \<rparr>
         else
           let numSamples = (if totalCount < Capacity then totalCount else Capacity);
               sorted_v = sort (snapshot Capacity st);
               sum = foldl (\<lambda>sum i. d_add sum (d_div (d_of_u64 (sorted_v ! i)) 1000)) 0
                       [0..<numSamples];
               n = d_of_nat numSamples
           in \<lparr> count = m_count st,
                min_us = d_div (d_of_u64 (hd sorted_v)) 1000,
                max_us = d_div (d_of_u64 (last sorted_v)) 1000,
                mean_us = d_div sum n,
                p50_us = percentile sorted_v (to_double 50),
                p95_us = percentile sorted_v (to_double 95),
                p99_us = percentile sorted_v (to_double 99),
                p999_us = percentile sorted_v (to_double (999 / 10)),
                p9999_us = percentile sorted_v (to_double (9999 / 100)) \<rparr>)"

text \<open>
  The spec's nearest-rank index for percentile \<open>p\<close> over \<open>n\<close> samples, on exact numbers:
  min(n, max(1, ceil(p * n / 100))).
\<close>

definition nearest_rank :: "real \<Rightarrow> nat \<Rightarrow> nat" where
  "nearest_rank p n = min n (max 1 (nat \<lceil>p * real n / 100\<rceil>))"

text \<open>The samples of the known distribution: 1 us, 2 us, ..., 100000 us, in nanoseconds.\<close>

definition known_samples :: "64 word list" where
  "known_samples = map (\<lambda>i. word_of_nat (1000 * i)) [1..<100001]"

section \<open>Properties\<close>

lemma crc_bits_8: "crc_bits 8 c =
    crc_shift (crc_shift (crc_shift (crc_shift (crc_shift (crc_shift (crc_shift (crc_shift c)))))))"
  by (simp add: eval_nat_numeral)

text \<open>
  C4. \<^verbatim>\<open>calculateCrc32\<close> is the IEEE 802.3 CRC-32 (reflected polynomial 0xEDB88320,
  initial value 0xFFFFFFFF, final XOR 0xFFFFFFFF): it maps the empty input to 0x00000000,
  the single byte 0x61 to 0xE8B7BE43 and the nine ASCII bytes of "123456789" to 0xCBF43926.
\<close>

theorem crc32_test_vectors:
  "calculateCrc32 [] 0 = 0x00000000
   \<and> calculateCrc32 [0x61] 1 = 0xE8B7BE43
   \<and> calculateCrc32 [0x31, 0x32, 0x33, 0x34, 0x35, 0x36, 0x37, 0x38, 0x39] 9 = 0xCBF43926"
  by (simp add: calculateCrc32_def crc_byte_def crc_bits_8 crc_shift_def CRC32_POLYNOMIAL_def)


subsection \<open>Codec\<close>

lemma rd32_le32: "rd32 (pre @ le32 w @ rest) (length pre) = w"
  unfolding rd32_def le32_def
  apply (simp add: nth_append)
  apply (rule bit_word_eqI)
  apply (auto simp add: bit_simps)
  subgoal for n by (cases "24 \<le> n") auto
  done

lemma rd16_le16: "rd16 (pre @ le16 w @ rest) (length pre) = w"
  unfolding rd16_def le16_def
  apply (simp add: nth_append)
  apply (rule bit_word_eqI)
  apply (auto simp add: bit_simps)
  done

lemma length_le32: "length (le32 w) = 4"
  by (simp add: le32_def)

lemma length_le16: "length (le16 w) = 2"
  by (simp add: le16_def)

lemma update_keeps_codec_fields:
  "m_unique_id (updateReceivedLifesign s now l) = m_unique_id s"
  "m_data_length (updateReceivedLifesign s now l) = m_data_length s"
  "m_rx_lifesign (updateReceivedLifesign s now l) = l"
  by (simp_all add: updateReceivedLifesign_def track_lifesign_def check_stability_def
        measure_interval_def Let_def)

lemma length_header_bytes: "length (AppPacketHeader_bytes uid ls n) = 8"
  by (simp add: AppPacketHeader_bytes_def length_le32 length_le16)

lemma length_footer_bytes: "length (AppPacketFooter_bytes c) = 4"
  by (simp add: AppPacketFooter_bytes_def length_le32)

lemma calculateCrc32_prefix: "calculateCrc32 (xs @ ys) (length xs) = calculateCrc32 xs (length xs)"
  by (simp add: calculateCrc32_def)

lemma encode_writes_frame:
  assumes ptr: "m_data_ptr tx = Some payload" and len: "m_data_length tx = length payload"
    and fits: "12 + length payload \<le> buffer_size" and region: "buffer_size \<le> length buf"
  shows "encode tx (Some buf) buffer_size =
           (12 + length payload,
            Some (frame_of (m_unique_id tx) (m_lifesign tx) payload @ drop (12 + length payload) buf),
            tx\<lparr>m_crc32 := calculateCrc32 (AppPacketHeader_bytes (m_unique_id tx) (m_lifesign tx) (word_of_nat (length payload)) @ payload) (8 + length payload),
               m_error := None_err, m_lifesign := m_lifesign tx + 1\<rparr>)"
proof -
  let ?h = "AppPacketHeader_bytes (m_unique_id tx) (m_lifesign tx) (word_of_nat (length payload))"
  let ?c = "calculateCrc32 (?h @ payload) (8 + length payload)"
  have lh: "length ?h = 8" by (rule length_header_bytes)
  have b1: "memmove_at buf 0 ?h = ?h @ drop 8 buf"
    by (simp add: memmove_at_def lh)
  have b2: "memmove_at (?h @ drop 8 buf) 8 payload = ?h @ payload @ drop (8 + length payload) buf"
    using fits region by (simp add: memmove_at_def lh add.commute)
  have crc: "calculateCrc32 (?h @ payload @ drop (8 + length payload) buf) (8 + length payload) = ?c"
    using calculateCrc32_prefix [of "?h @ payload" "drop (8 + length payload) buf"]
    by (simp add: lh)
  have b3: "memmove_at (?h @ payload @ drop (8 + length payload) buf) (8 + length payload)
              (AppPacketFooter_bytes ?c)
            = (?h @ payload) @ AppPacketFooter_bytes ?c @ drop (12 + length payload) buf"
    using fits region by (simp add: memmove_at_def lh length_footer_bytes add.commute)
  show ?thesis
  proof (cases "payload = []")
    case True
    with b1 b3 crc have "memmove_at (memmove_at buf 0 ?h) 8 (AppPacketFooter_bytes (calculateCrc32 (memmove_at buf 0 ?h) 8))
       = ?h @ AppPacketFooter_bytes ?c @ drop 12 buf"
      and "calculateCrc32 (memmove_at buf 0 ?h) 8 = ?c"
      by simp_all
    with True show ?thesis
      using ptr len fits lh
      by (simp add: encode_def Let_def HEADER_SIZE_def FOOTER_SIZE_def frame_of_def)
  next
    case False
    have "memmove_at (memmove_at (memmove_at buf 0 ?h) 8 payload) (8 + length payload)
             (AppPacketFooter_bytes (calculateCrc32 (memmove_at (memmove_at buf 0 ?h) 8 payload) (8 + length payload)))
       = (?h @ payload) @ AppPacketFooter_bytes ?c @ drop (12 + length payload) buf"
      and "calculateCrc32 (memmove_at (memmove_at buf 0 ?h) 8 payload) (8 + length payload) = ?c"
      by (simp_all only: b1 b2 crc b3)
    with False show ?thesis
      using ptr len fits lh
      by (simp add: encode_def Let_def HEADER_SIZE_def FOOTER_SIZE_def frame_of_def)
  qed
qed


lemma frame_of_reads:
  fixes payload :: "byte list" and uid :: "32 word" and ls :: "16 word"
  shows "rd32 (frame_of uid ls payload) 0 = uid"
    and "rd16 (frame_of uid ls payload) 4 = ls"
    and "rd16 (frame_of uid ls payload) 6 = word_of_nat (length payload)"
    and "rd32 (frame_of uid ls payload) (8 + length payload)
           = calculateCrc32 (frame_of uid ls payload) (8 + length payload)"
    and "take (length payload) (drop 8 (frame_of uid ls payload)) = payload"
    and "length (frame_of uid ls payload) = 12 + length payload"
proof -
  let ?F = "frame_of uid ls payload"
  let ?N = "length payload"
  let ?h = "AppPacketHeader_bytes uid ls (word_of_nat ?N)"
  let ?c = "calculateCrc32 (?h @ payload) (8 + ?N)"
  have F: "?F = ?h @ payload @ le32 ?c"
    by (simp add: frame_of_def Let_def length_header_bytes AppPacketFooter_bytes_def)
  have lh: "length ?h = 8" by (rule length_header_bytes)
  show "rd32 ?F 0 = uid"
    using rd32_le32 [of "[]" uid "le16 ls @ le16 (word_of_nat ?N) @ payload @ le32 ?c"]
    by (simp add: F AppPacketHeader_bytes_def)
  show "rd16 ?F 4 = ls"
    using rd16_le16 [of "le32 uid" ls "le16 (word_of_nat ?N) @ payload @ le32 ?c"]
    by (simp add: F AppPacketHeader_bytes_def length_le32)
  show "rd16 ?F 6 = word_of_nat ?N"
    using rd16_le16 [of "le32 uid @ le16 ls" "word_of_nat ?N" "payload @ le32 ?c"]
    by (simp add: F AppPacketHeader_bytes_def length_le32 length_le16)
  have crc: "calculateCrc32 ?F (8 + ?N) = ?c"
    by (simp add: F lh calculateCrc32_def)
  have "rd32 ?F (8 + ?N) = ?c"
    using rd32_le32 [of "?h @ payload" ?c "[]"]
    by (simp add: F lh)
  with crc show "rd32 ?F (8 + ?N) = calculateCrc32 ?F (8 + ?N)" by simp
  show "take ?N (drop 8 ?F) = payload"
    by (simp add: F lh)
  show "length ?F = 12 + ?N"
    by (simp add: F lh length_le32)
qed

lemma decode_reads_frame:
  assumes small: "length payload \<le> 256"
  shows "\<exists>rx'. decode rx (Some (frame_of uid ls payload)) (12 + length payload) now = (True, rx')
           \<and> getUniqueId rx' = uid \<and> getReceivedLifesign rx' = ls
           \<and> getDataLength rx' = length payload \<and> payload_view rx' = payload
           \<and> getCrc32 rx' = calculateCrc32 (frame_of uid ls payload) (8 + length payload)
           \<and> getError rx' = None_err"
proof (cases "payload = []")
  case True
  note rd = frame_of_reads [where uid = uid and ls = ls and payload = "[]"]
  from True show ?thesis
    using rd(1-4)
    by (simp add: decode_def Let_def HEADER_SIZE_def FOOTER_SIZE_def APP_PACKET_MAX_DATA_SIZE_def
          update_keeps_codec_fields getUniqueId_def getReceivedLifesign_def
          getDataLength_def payload_view_def getData_def getCrc32_def getError_def)
next
  case False
  have n: "unat (word_of_nat (length payload) :: 16 word) = length payload"
    using small by (simp add: unat_of_nat)
  note rd = frame_of_reads [where uid = uid and ls = ls and payload = payload]
  from False show ?thesis
    using small n rd(5)
    by (simp add: decode_def Let_def HEADER_SIZE_def FOOTER_SIZE_def APP_PACKET_MAX_DATA_SIZE_def
          rd(1-4) update_keeps_codec_fields getUniqueId_def getReceivedLifesign_def
          getDataLength_def payload_view_def getData_def getCrc32_def getError_def)
qed

text \<open>
  C2. Round trip. For every identifier, every sender lifesign and every payload of at most
  256 bytes, \<^verbatim>\<open>encode\<close> into a large enough buffer writes exactly 12 + N bytes and
  advances the sender's lifesign; \<^verbatim>\<open>decode\<close> of those bytes by a packet in any state (a
  fresh one in particular) succeeds and yields the same identifier, the sender's lifesign
  at encode time, data length N, the original payload bytes and a stored CRC equal to the
  CRC recomputed over the first 8 + N bytes.
\<close>

theorem encode_decode_roundtrip:
  assumes small: "length payload \<le> 256"
    and fits: "12 + length payload \<le> buffer_size" and region: "buffer_size \<le> length buf"
  shows "\<exists>out tx' rx'.
           encode (setDataPointer (setUniqueId tx0 uid) (Some payload) (length payload))
             (Some buf) buffer_size = (12 + length payload, Some out, tx')
           \<and> getLifesign tx' = getLifesign tx0 + 1
           \<and> decode rx (Some (take (12 + length payload) out)) (12 + length payload) now
               = (True, rx')
           \<and> getUniqueId rx' = uid \<and> getReceivedLifesign rx' = getLifesign tx0
           \<and> getDataLength rx' = length payload \<and> payload_view rx' = payload
           \<and> getCrc32 rx' = calculateCrc32 out (8 + length payload)
           \<and> getError rx' = None_err"
proof -
  let ?tx = "setDataPointer (setUniqueId tx0 uid) (Some payload) (length payload)"
  let ?N = "length payload"
  let ?F = "frame_of uid (m_lifesign tx0) payload"
  have tx: "m_data_ptr ?tx = Some payload" "m_data_length ?tx = ?N"
    "m_unique_id ?tx = uid" "m_lifesign ?tx = m_lifesign tx0"
    using small by (simp_all add: setDataPointer_def setUniqueId_def APP_PACKET_MAX_DATA_SIZE_def)
  let ?out = "?F @ drop (12 + ?N) buf"
  obtain tx' where enc: "encode ?tx (Some buf) buffer_size = (12 + ?N, Some ?out, tx')"
    and ls: "m_lifesign tx' = m_lifesign tx0 + 1"
    using encode_writes_frame [OF tx(1) tx(2) fits region] by (simp add: tx)
  have lF: "length ?F = 12 + ?N" by (rule frame_of_reads(6))
  have tk: "take (12 + ?N) ?out = ?F" using lF by simp
  have crc: "calculateCrc32 ?out (8 + ?N) = calculateCrc32 ?F (8 + ?N)"
    using lF by (simp add: calculateCrc32_def)
  from decode_reads_frame [OF small, of rx uid "m_lifesign tx0" now]
  obtain rx' where "decode rx (Some ?F) (12 + ?N) now = (True, rx')"
    "getUniqueId rx' = uid" "getReceivedLifesign rx' = m_lifesign tx0"
    "getDataLength rx' = ?N" "payload_view rx' = payload"
    "getCrc32 rx' = calculateCrc32 ?F (8 + ?N)" "getError rx' = None_err"
    by blast
  with enc ls tk crc show ?thesis
    by (simp add: getLifesign_def)
qed

theorem encode_decode_roundtrip_witness:
  "length [0x41, 0x67, 0x65, 0x6E, 0x74, 0x20, 0x54, 0x65, 0x61, 0x6D, 0x20, 0x54, 0x65, 0x73, 0x74 :: byte] \<le> 256
   \<and> 12 + length [0x41, 0x67, 0x65, 0x6E, 0x74, 0x20, 0x54, 0x65, 0x61, 0x6D, 0x20, 0x54, 0x65, 0x73, 0x74 :: byte] \<le> 256
   \<and> 256 \<le> length (replicate 256 (0 :: byte))
   \<and> (\<exists>out tx' rx'.
         encode (setDataPointer (setUniqueId (AppPacket_ctor 0 0) 0x12345678)
                   (Some [0x41, 0x67, 0x65, 0x6E, 0x74, 0x20, 0x54, 0x65, 0x61, 0x6D, 0x20, 0x54, 0x65, 0x73, 0x74 :: byte])
                   (length [0x41, 0x67, 0x65, 0x6E, 0x74, 0x20, 0x54, 0x65, 0x61, 0x6D, 0x20, 0x54, 0x65, 0x73, 0x74 :: byte]))
           (Some (replicate 256 0)) 256
           = (12 + length [0x41, 0x67, 0x65, 0x6E, 0x74, 0x20, 0x54, 0x65, 0x61, 0x6D, 0x20, 0x54, 0x65, 0x73, 0x74 :: byte], Some out, tx')
         \<and> getLifesign tx' = getLifesign (AppPacket_ctor 0 0) + 1
         \<and> decode (AppPacket_ctor 5 5)
               (Some (take (12 + length [0x41, 0x67, 0x65, 0x6E, 0x74, 0x20, 0x54, 0x65, 0x61, 0x6D, 0x20, 0x54, 0x65, 0x73, 0x74 :: byte]) out))
               (12 + length [0x41, 0x67, 0x65, 0x6E, 0x74, 0x20, 0x54, 0x65, 0x61, 0x6D, 0x20, 0x54, 0x65, 0x73, 0x74 :: byte]) 100000005
             = (True, rx')
         \<and> getUniqueId rx' = 0x12345678
         \<and> getReceivedLifesign rx' = getLifesign (AppPacket_ctor 0 0)
         \<and> getDataLength rx' = length [0x41, 0x67, 0x65, 0x6E, 0x74, 0x20, 0x54, 0x65, 0x61, 0x6D, 0x20, 0x54, 0x65, 0x73, 0x74 :: byte]
         \<and> payload_view rx' = [0x41, 0x67, 0x65, 0x6E, 0x74, 0x20, 0x54, 0x65, 0x61, 0x6D, 0x20, 0x54, 0x65, 0x73, 0x74 :: byte]
         \<and> getCrc32 rx' = calculateCrc32 out (8 + length [0x41, 0x67, 0x65, 0x6E, 0x74, 0x20, 0x54, 0x65, 0x61, 0x6D, 0x20, 0x54, 0x65, 0x73, 0x74 :: byte])
         \<and> getError rx' = None_err)"
proof -
  let ?p = "[0x41, 0x67, 0x65, 0x6E, 0x74, 0x20, 0x54, 0x65, 0x61, 0x6D, 0x20, 0x54, 0x65, 0x73, 0x74 :: byte]"
  have h1: "length ?p \<le> 256"
    by simp
  have h2: "12 + length ?p \<le> 256"
    by simp
  have h3: "256 \<le> length (replicate 256 (0 :: byte))"
    by simp
  from encode_decode_roundtrip [OF h1 h2 h3, of "AppPacket_ctor 0 0" "0x12345678"
      "AppPacket_ctor 5 5" 100000005] h1 h2 h3
  show ?thesis
    by (intro conjI)
qed

text \<open>
  C1. A rejected frame must leave the link-health state as it was. \<^verbatim>\<open>decode\<close> calls
  \<^verbatim>\<open>updateReceivedLifesign\<close> before it verifies the CRC: for a fresh packet and the
  12-byte frame with lifesign 1, no payload and a wrong CRC, received 50 ms after
  construction, \<^verbatim>\<open>decode\<close> fails with \<^verbatim>\<open>CrcMismatch\<close> and yet the received lifesign, both
  instants, the measured interval, the unstable streak and the unstable flag have changed.
\<close>

theorem decode_crc_mismatch_updates_link_health:
  "fst (decode (AppPacket_ctor 0 0) (Some [0, 0, 0, 0, 1, 0, 0, 0, 0, 0, 0, 0]) 12 50000000) = False
   \<and> getError (snd (decode (AppPacket_ctor 0 0) (Some [0, 0, 0, 0, 1, 0, 0, 0, 0, 0, 0, 0]) 12 50000000))
       = CrcMismatch
   \<and> link_health (AppPacket_ctor 0 0) = (0, 0, 0, 0, 0, 0, False)
   \<and> link_health (snd (decode (AppPacket_ctor 0 0) (Some [0, 0, 0, 0, 1, 0, 0, 0, 0, 0, 0, 0]) 12 50000000))
       = (1, 0, 50000000, 50000000, 50000, 1, True)"
  by code_simp

text \<open>The rejections that precede the update do leave the link-health state alone.\<close>

lemma decode_early_reject_keeps_link_health:
  assumes "decode s buffer buffer_size now = (False, s')"
    and "getError s' \<noteq> CrcMismatch"
  shows "link_health s' = link_health s"
  using assms
  by (auto simp add: decode_def Let_def link_health_def getError_def
        split: option.splits if_splits)

text \<open>
  Whenever \<^verbatim>\<open>decode\<close> rejects a frame for its CRC, the monitor has been updated with the
  frame's lifesign at the time of the call.
\<close>

lemma decode_crc_mismatch_runs_update:
  assumes "decode s (Some buf) buffer_size now = (False, s')"
    and "getError s' = CrcMismatch"
  shows "link_health s'
           = link_health (updateReceivedLifesign
               (s\<lparr>m_unique_id := rd32 buf 0, m_data_length := unat (rd16 buf 6)\<rparr>) now
               (rd16 buf 4))"
  using assms
  by (auto simp add: decode_def Let_def link_health_def getError_def split: if_splits)

text \<open>
  C3, as stated, fails: after \<^verbatim>\<open>setDataPointer\<close> with a 257-byte view, \<^verbatim>\<open>encode\<close> into a
  300-byte buffer returns 12, not 0, and leaves the error \<^verbatim>\<open>None\<close>, not \<^verbatim>\<open>DataTooLarge\<close>.
\<close>

theorem encode_after_oversized_counterexample:
  "fst (encode (setDataPointer (AppPacket_ctor 0 0) (Some (replicate 257 0)) 257)
          (Some (replicate 300 0)) 300) = 12
   \<and> getError (snd (snd (encode (setDataPointer (AppPacket_ctor 0 0) (Some (replicate 257 0)) 257)
          (Some (replicate 300 0)) 300))) = None_err"
  by (simp add: encode_def setDataPointer_def AppPacket_ctor_def Let_def HEADER_SIZE_def
        FOOTER_SIZE_def APP_PACKET_MAX_DATA_SIZE_def getError_def)

text \<open>
  C3, amended. For every non-null payload view longer than 256 bytes, \<^verbatim>\<open>setDataPointer\<close>
  records \<^verbatim>\<open>DataTooLarge\<close> and resets the view to null with length 0. A subsequent
  \<^verbatim>\<open>encode\<close> into a non-null buffer of at least 12 bytes does not fail: it returns 12,
  writes the header with data length 0 followed by its CRC (no byte of the oversized view),
  sets the error to \<^verbatim>\<open>None\<close> and advances the lifesign.
\<close>

theorem setDataPointer_oversized_then_encode:
  assumes big: "len > 256" and fits: "12 \<le> buffer_size" and region: "buffer_size \<le> length buf"
  shows "getError (setDataPointer s (Some d) len) = DataTooLarge
         \<and> getData (setDataPointer s (Some d) len) = None
         \<and> getDataLength (setDataPointer s (Some d) len) = 0
         \<and> encode (setDataPointer s (Some d) len) (Some buf) buffer_size
             = (12,
                Some (AppPacketHeader_bytes (m_unique_id s) (m_lifesign s) 0
                      @ AppPacketFooter_bytes
                          (calculateCrc32 (AppPacketHeader_bytes (m_unique_id s) (m_lifesign s) 0) 8)
                      @ drop 12 buf),
                (setDataPointer s (Some d) len)
                  \<lparr>m_crc32 := calculateCrc32 (AppPacketHeader_bytes (m_unique_id s) (m_lifesign s) 0) 8,
                   m_error := None_err, m_lifesign := m_lifesign s + 1\<rparr>)"
proof -
  let ?tx = "setDataPointer s (Some d) len"
  let ?h = "AppPacketHeader_bytes (m_unique_id s) (m_lifesign s) 0"
  have tx: "m_error ?tx = DataTooLarge" "m_data_ptr ?tx = None" "m_data_length ?tx = 0"
    "m_unique_id ?tx = m_unique_id s" "m_lifesign ?tx = m_lifesign s"
    using big by (simp_all add: setDataPointer_def APP_PACKET_MAX_DATA_SIZE_def)
  have lh: "length ?h = 8" by (rule length_header_bytes)
  have b1: "memmove_at buf 0 ?h = ?h @ drop 8 buf"
    by (simp add: memmove_at_def lh)
  have crc: "calculateCrc32 (?h @ drop 8 buf) 8 = calculateCrc32 ?h 8"
    by (simp add: calculateCrc32_def lh)
  have b3: "memmove_at (?h @ drop 8 buf) 8 (AppPacketFooter_bytes c)
            = ?h @ AppPacketFooter_bytes c @ drop 12 buf" for c
    using fits region by (simp add: memmove_at_def lh length_footer_bytes)
  have "encode ?tx (Some buf) buffer_size
          = (12, Some (?h @ AppPacketFooter_bytes (calculateCrc32 ?h 8) @ drop 12 buf),
             ?tx\<lparr>m_crc32 := calculateCrc32 ?h 8, m_error := None_err,
                  m_lifesign := m_lifesign s + 1\<rparr>)"
    using fits by (simp add: encode_def Let_def HEADER_SIZE_def FOOTER_SIZE_def tx b1 crc b3)
  then show ?thesis
    by (simp add: tx getError_def getData_def getDataLength_def)
qed

theorem setDataPointer_oversized_then_encode_witness:
  "(257::nat) > 256 \<and> (12::nat) \<le> 16 \<and> 16 \<le> length (replicate 16 (0::byte))
   \<and> getError (setDataPointer (AppPacket_ctor 0 0) (Some (replicate 257 7)) 257) = DataTooLarge
   \<and> fst (encode (setDataPointer (AppPacket_ctor 0 0) (Some (replicate 257 7)) 257)
             (Some (replicate 16 0)) 16) = 12
   \<and> getError (snd (snd (encode (setDataPointer (AppPacket_ctor 0 0) (Some (replicate 257 7)) 257)
             (Some (replicate 16 0)) 16))) = None_err"
proof -
  have h1: "(257::nat) > 256" by simp
  have h2: "(12::nat) \<le> 16" by simp
  have h3: "16 \<le> length (replicate 16 (0::byte))" by simp
  show ?thesis
    using setDataPointer_oversized_then_encode [OF h1 h2 h3, of "AppPacket_ctor 0 0" "replicate 257 7"]
    by (simp add: getError_def)
qed

subsection \<open>Link-health monitor\<close>

lemma update_link_fields:
  "m_last_recv_time (updateReceivedLifesign s now l) = now"
  "m_last_interval_us (updateReceivedLifesign s now l)
     = word_of_int (duration_cast (now - m_last_recv_time s) 1000)"
  "m_rx_lifesign_prev (updateReceivedLifesign s now l) = m_rx_lifesign s"
  "m_last_change_time (updateReceivedLifesign s now l)
     = (if l \<noteq> m_rx_lifesign s then now else m_last_change_time s)"
  "m_expected_interval_ms (updateReceivedLifesign s now l) = m_expected_interval_ms s"
  "m_tolerance_us (updateReceivedLifesign s now l) = m_tolerance_us s"
  "m_comm_timeout_ms (updateReceivedLifesign s now l) = m_comm_timeout_ms s"
  by (simp_all add: updateReceivedLifesign_def track_lifesign_def check_stability_def
        measure_interval_def Let_def)

lemma check_stability_fields:
  "m_comm_unstable (check_stability s)
     = out_of_tolerance (m_expected_interval_ms s) (m_tolerance_us s) (m_last_interval_us s)"
  "m_unstable_counter (check_stability s)
     = (if out_of_tolerance (m_expected_interval_ms s) (m_tolerance_us s) (m_last_interval_us s)
        then (if m_unstable_counter s < 0xFFFF then m_unstable_counter s + 1
              else m_unstable_counter s)
        else 0)"
  "m_error (check_stability s)
     = (if out_of_tolerance (m_expected_interval_ms s) (m_tolerance_us s) (m_last_interval_us s)
        then (if m_error s = None_err then UnstableCommunication else m_error s)
        else (if m_error s = UnstableCommunication then None_err else m_error s))"
  by (simp_all add: check_stability_def out_of_tolerance_def Let_def)

lemma uint_add_no_wrap:
  fixes x t :: "32 word"
  assumes "uint x + uint t < 2 ^ 32"
  shows "uint (x + t) = uint x + uint t"
  using assms by (simp add: uint_word_ariths)

lemma uint_sub_no_wrap:
  fixes x t :: "32 word"
  assumes "uint t \<le> uint x"
  shows "uint (x - t) = uint x - uint t"
proof -
  have "uint x < 2 ^ 32"
    using uint_lt2p [of x] by simp
  then have "uint x - uint t < 2 ^ 32"
    using uint_ge_0 [of t] by linarith
  with assms show ?thesis
    by (simp add: uint_word_ariths)
qed

lemma out_of_tolerance_exact:
  assumes "uint expected_ms * 1000 + uint tol < 2 ^ 32"
  shows "out_of_tolerance expected_ms tol i
         \<longleftrightarrow> \<not> (max 0 (uint expected_ms * 1000 - uint tol) \<le> uint i
                \<and> uint i \<le> uint expected_ms * 1000 + uint tol)"
proof -
  have lt: "uint expected_ms * 1000 < 2 ^ 32"
    using assms uint_ge_0 [of tol] by linarith
  have e: "uint (expected_ms * 1000) = uint expected_ms * 1000"
    using lt by (simp add: uint_word_ariths)
  have u: "uint (expected_ms * 1000 + tol) = uint expected_ms * 1000 + uint tol"
    using assms uint_add_no_wrap [of "expected_ms * 1000" tol] by (simp add: e)
  have l: "uint (expected_ms * 1000 - tol) = uint expected_ms * 1000 - uint tol"
    if "uint tol < uint expected_ms * 1000"
    using that uint_sub_no_wrap [of tol "expected_ms * 1000"] by (simp add: e)
  show ?thesis
  proof (cases "uint tol < uint expected_ms * 1000")
    case True
    with l [OF True] u e show ?thesis
      by (simp add: out_of_tolerance_def Let_def word_less_def word_le_def) linarith
  next
    case False
    with u e show ?thesis
      by (simp add: out_of_tolerance_def Let_def word_less_def word_le_def) linarith
  qed
qed


text \<open>
  C5, amended. Let E = expected_interval_ms * 1000 and T = tolerance_us as integers, with
  E + T below 2^32, and let the error slot hold something other than \<^verbatim>\<open>LossOfCommunication\<close>
  (which no operation assigns). After an update the measured interval is the 32-bit cast
  of the microseconds since the last receive, and it is classified in tolerance iff
  max(0, E - T) <= interval_us <= E + T. Out of tolerance, the unstable streak is
  incremented saturating at 65535, the flag is set and the error becomes
  \<^verbatim>\<open>UnstableCommunication\<close> iff it was \<^verbatim>\<open>None\<close>; in tolerance, the streak is 0, the flag is
  clear and the error is cleared iff it read \<^verbatim>\<open>UnstableCommunication\<close>.
\<close>

theorem interval_classification:
  assumes fits: "uint (m_expected_interval_ms s) * 1000 + uint (m_tolerance_us s) < 2 ^ 32"
    and err: "m_error s \<noteq> LossOfCommunication"
  shows "getLastIntervalUs (updateReceivedLifesign s now l)
           = word_of_int (duration_cast (now - m_last_recv_time s) 1000)
         \<and> (isCommUnstable (updateReceivedLifesign s now l)
              \<longleftrightarrow> \<not> in_tolerance (uint (m_expected_interval_ms s) * 1000)
                      (uint (m_tolerance_us s))
                      (uint (getLastIntervalUs (updateReceivedLifesign s now l))))
         \<and> (if isCommUnstable (updateReceivedLifesign s now l)
            then uint (getUnstableCounter (updateReceivedLifesign s now l))
                   = min 65535 (uint (m_unstable_counter s) + 1)
               \<and> getError (updateReceivedLifesign s now l)
                   = (if m_error s = None_err then UnstableCommunication else m_error s)
            else getUnstableCounter (updateReceivedLifesign s now l) = 0
               \<and> getError (updateReceivedLifesign s now l)
                   = (if m_error s = UnstableCommunication then None_err else m_error s))"
proof -
  let ?m = "measure_interval s now"
  let ?c = "check_stability ?m"
  let ?s' = "updateReceivedLifesign s now l"
  have m: "m_expected_interval_ms ?m = m_expected_interval_ms s"
    "m_tolerance_us ?m = m_tolerance_us s" "m_error ?m = m_error s"
    "m_unstable_counter ?m = m_unstable_counter s"
    "m_last_interval_us ?m = word_of_int (duration_cast (now - m_last_recv_time s) 1000)"
    by (simp_all add: measure_interval_def)
  have t: "m_comm_unstable ?s' = m_comm_unstable ?c" "m_unstable_counter ?s' = m_unstable_counter ?c"
    "m_last_interval_us ?s' = m_last_interval_us ?m"
    by (simp_all add: updateReceivedLifesign_def track_lifesign_def check_stability_def Let_def)
  have te: "m_error ?s' = m_error ?c" if "m_error ?c \<noteq> LossOfCommunication"
    using that by (simp add: updateReceivedLifesign_def track_lifesign_def Let_def)
  have ce: "m_error ?c \<noteq> LossOfCommunication"
    using err by (simp add: check_stability_fields m)
  have cnt1: "uint (c + 1) = min 65535 (uint c + 1)" if "c < 0xFFFF" for c :: "16 word"
  proof -
    from that have "uint c < 65535" by (simp add: word_less_def)
    then show ?thesis by (simp add: uint_word_ariths)
  qed
  have cnt2: "uint c = min 65535 (uint c + 1)" if "\<not> c < 0xFFFF" for c :: "16 word"
  proof -
    from that have "uint c \<ge> 65535" by (simp add: word_less_def)
    moreover have "uint c < 65536" using uint_lt2p [of c] by simp
    ultimately show ?thesis by simp
  qed
  show ?thesis
    using out_of_tolerance_exact [OF fits, of "m_last_interval_us ?m"]
      cnt1 [of "m_unstable_counter s"] cnt2 [of "m_unstable_counter s"]
    by (simp add: getLastIntervalUs_def isCommUnstable_def getUnstableCounter_def getError_def
          t te [OF ce] check_stability_fields m in_tolerance_def)
qed


text \<open>
  C5, as stated, fails where E + T exceeds 32 bits: with expected interval 100 ms and
  tolerance 4294967295 us, an interval of 100000 us satisfies
  max(0, E - T) <= interval_us <= E + T, and the update classifies it as unstable, since
  \<^verbatim>\<open>upper_bound\<close> wraps to 99999.
\<close>

theorem interval_classification_counterexample:
  "in_tolerance (uint (100 :: 32 word) * 1000) (uint (0xFFFFFFFF :: 32 word))
     (uint (getLastIntervalUs
        (updateReceivedLifesign (setExpectedInterval (AppPacket_ctor 0 0) 100 0xFFFFFFFF)
           100000000 1)))
   \<and> isCommUnstable
        (updateReceivedLifesign (setExpectedInterval (AppPacket_ctor 0 0) 100 0xFFFFFFFF)
           100000000 1)
   \<and> getUnstableCounter
        (updateReceivedLifesign (setExpectedInterval (AppPacket_ctor 0 0) 100 0xFFFFFFFF)
           100000000 1) = 1
   \<and> getError
        (updateReceivedLifesign (setExpectedInterval (AppPacket_ctor 0 0) 100 0xFFFFFFFF)
           100000000 1) = UnstableCommunication"
  by (simp add: in_tolerance_def getLastIntervalUs_def isCommUnstable_def getUnstableCounter_def
        getError_def updateReceivedLifesign_def track_lifesign_def check_stability_def
        measure_interval_def setExpectedInterval_def AppPacket_ctor_def duration_cast_def Let_def)

theorem interval_classification_witness:
  "uint (m_expected_interval_ms (AppPacket_ctor 0 0)) * 1000
     + uint (m_tolerance_us (AppPacket_ctor 0 0)) < 2 ^ 32
   \<and> m_error (AppPacket_ctor 0 0) \<noteq> LossOfCommunication
   \<and> getLastIntervalUs (updateReceivedLifesign (AppPacket_ctor 0 0) 150000000 1) = 150000
   \<and> isCommUnstable (updateReceivedLifesign (AppPacket_ctor 0 0) 150000000 1)
   \<and> uint (getUnstableCounter (updateReceivedLifesign (AppPacket_ctor 0 0) 150000000 1)) = 1
   \<and> getError (updateReceivedLifesign (AppPacket_ctor 0 0) 150000000 1) = UnstableCommunication"
proof -
  have c: "m_expected_interval_ms (AppPacket_ctor 0 0) = 100"
    "m_tolerance_us (AppPacket_ctor 0 0) = 5000"
    "m_error (AppPacket_ctor 0 0) = None_err"
    "m_last_recv_time (AppPacket_ctor 0 0) = 0"
    "m_unstable_counter (AppPacket_ctor 0 0) = 0"
    by (simp_all add: AppPacket_ctor_def APP_PACKET_EXPECTED_INTERVAL_MS_def
          APP_PACKET_INTERVAL_TOLERANCE_US_def)
  have h1: "uint (m_expected_interval_ms (AppPacket_ctor 0 0)) * 1000
              + uint (m_tolerance_us (AppPacket_ctor 0 0)) < 2 ^ 32"
    by (simp add: c)
  have h2: "m_error (AppPacket_ctor 0 0) \<noteq> LossOfCommunication"
    by (simp add: c)
  have i: "(word_of_int (duration_cast 150000000 1000) :: 32 word) = 150000"
    by (simp add: duration_cast_def)
  show ?thesis
    using interval_classification [OF h1 h2, of 150000000 1] h1 h2
    by (simp add: c i in_tolerance_def)
qed

lemma le_div_iff_mult_le:
  fixes t d k :: int
  assumes k: "0 < k"
  shows "t \<le> d div k \<longleftrightarrow> t * k \<le> d"
proof
  assume "t \<le> d div k"
  then have "t * k \<le> d div k * k"
    using k by (simp add: mult_right_mono)
  also have "d div k * k \<le> d"
    using div_mult_mod_eq [of d k] pos_mod_sign [OF k, of d] by linarith
  finally show "t * k \<le> d" .
next
  assume "t * k \<le> d"
  then have "t * k div k \<le> d div k"
    using k by (rule zdiv_mono1)
  then show "t \<le> d div k"
    using k by simp
qed

lemma duration_cast_nonneg: "0 \<le> d \<Longrightarrow> duration_cast d k = d div k"
  by (cases "d = 0") (simp_all add: duration_cast_def)

text \<open>
  C6, amended. For every monitor state and every query time at which the time elapsed
  since the last change instant is non-negative and below 2^32 ms, \<^verbatim>\<open>isCommLost\<close> is true
  iff at least \<open>comm_timeout_ms\<close> milliseconds have elapsed since that instant; an update
  restamps the instant to its clock reading exactly when the received lifesign differs
  from the previously received one; the default timeout is 1000 ms.
\<close>

theorem isCommLost_iff_timeout_elapsed:
  assumes mono: "m_last_change_time s \<le> now"
    and range: "now - m_last_change_time s < 2 ^ 32 * 1000000"
  shows "(isCommLost s now
            \<longleftrightarrow> uint (m_comm_timeout_ms s) * 1000000 \<le> now - m_last_change_time s)
         \<and> m_last_change_time (updateReceivedLifesign s t l)
             = (if l \<noteq> getReceivedLifesign s then t else m_last_change_time s)
         \<and> m_comm_timeout_ms (AppPacket_ctor t1 t2) = 1000"
proof -
  let ?d = "now - m_last_change_time s"
  let ?q = "?d div 1000000"
  have d0: "0 \<le> ?d"
    using mono by simp
  have q0: "0 \<le> ?q"
    using d0 by (simp add: pos_imp_zdiv_nonneg_iff)
  have "?q * 1000000 \<le> ?d"
    using div_mult_mod_eq [of ?d 1000000] pos_mod_sign [of 1000000 ?d] by linarith
  with range have q1: "?q < 2 ^ 32"
    by linarith
  have u: "uint (word_of_int ?q :: 32 word) = ?q"
    using q0 q1 by (simp add: uint_word_of_int)
  have lost: "isCommLost s now \<longleftrightarrow> uint (m_comm_timeout_ms s) \<le> ?q"
    using u by (simp add: isCommLost_def Let_def duration_cast_nonneg [OF d0] word_le_def)
  have "uint (m_comm_timeout_ms s) \<le> ?q \<longleftrightarrow> uint (m_comm_timeout_ms s) * 1000000 \<le> ?d"
    by (rule le_div_iff_mult_le) simp
  with lost show ?thesis
    by (simp add: updateReceivedLifesign_def track_lifesign_def check_stability_def
          measure_interval_def Let_def getReceivedLifesign_def AppPacket_ctor_def
          APP_PACKET_COMM_TIMEOUT_MS_def)
qed

text \<open>
  C6, as stated, fails once the elapsed milliseconds no longer fit 32 bits: 2^32 ms after
  the last change, with the default timeout, \<^verbatim>\<open>isCommLost\<close> is false although more than
  1000 ms have elapsed.
\<close>

theorem isCommLost_wraps_counterexample:
  "\<not> isCommLost (AppPacket_ctor 0 0) 4294967296000000
   \<and> uint (m_comm_timeout_ms (AppPacket_ctor 0 0)) * 1000000
        \<le> 4294967296000000 - m_last_change_time (AppPacket_ctor 0 0)"
  by (simp add: isCommLost_def AppPacket_ctor_def duration_cast_def
        APP_PACKET_COMM_TIMEOUT_MS_def)

theorem isCommLost_iff_timeout_elapsed_witness:
  "m_last_change_time (AppPacket_ctor 0 0) \<le> 1000000000
   \<and> 1000000000 - m_last_change_time (AppPacket_ctor 0 0) < 2 ^ 32 * 1000000
   \<and> isCommLost (AppPacket_ctor 0 0) 1000000000
   \<and> m_last_change_time (updateReceivedLifesign (AppPacket_ctor 0 0) 700000000 1) = 700000000
   \<and> m_last_change_time (updateReceivedLifesign (AppPacket_ctor 0 0) 700000000 0) = 0"
proof -
  have h1: "m_last_change_time (AppPacket_ctor 0 0) \<le> 1000000000"
    by (simp add: AppPacket_ctor_def)
  have h2: "1000000000 - m_last_change_time (AppPacket_ctor 0 0) < 2 ^ 32 * 1000000"
    by (simp add: AppPacket_ctor_def)
  have g: "getReceivedLifesign (AppPacket_ctor 0 0) = 0"
    "m_last_change_time (AppPacket_ctor 0 0) = 0"
    "m_comm_timeout_ms (AppPacket_ctor 0 0) = 1000"
    by (simp_all add: AppPacket_ctor_def getReceivedLifesign_def APP_PACKET_COMM_TIMEOUT_MS_def)
  show ?thesis
    using isCommLost_iff_timeout_elapsed [OF h1 h2, of 700000000 1]
      isCommLost_iff_timeout_elapsed [OF h1 h2, of 700000000 0]
    by (simp add: g)
qed

lemma update_keeps_no_loss:
  assumes "m_error s \<noteq> LossOfCommunication"
  shows "m_error (updateReceivedLifesign s now l) \<noteq> LossOfCommunication"
  using assms
  by (simp add: updateReceivedLifesign_def track_lifesign_def check_stability_def
        measure_interval_def Let_def)

text \<open>
  No operation of the class stores \<^verbatim>\<open>LossOfCommunication\<close>: a packet that does not hold
  it, a constructed one in particular, never will.
\<close>

lemma LossOfCommunication_never_assigned:
  assumes "m_error s \<noteq> LossOfCommunication"
  shows "m_error (setUniqueId s i) \<noteq> LossOfCommunication"
    and "m_error (setDataPointer s d n) \<noteq> LossOfCommunication"
    and "m_error (snd (snd (encode s b n))) \<noteq> LossOfCommunication"
    and "m_error (updateReceivedLifesign s now l) \<noteq> LossOfCommunication"
    and "m_error (snd (decode s b n now)) \<noteq> LossOfCommunication"
    and "m_error (setCommTimeout s t) \<noteq> LossOfCommunication"
    and "m_error (setExpectedInterval s e t) \<noteq> LossOfCommunication"
    and "m_error (resetCommMonitor s now) \<noteq> LossOfCommunication"
    and "m_error (AppPacket_ctor t1 t2) \<noteq> LossOfCommunication"
proof -
  show "m_error (updateReceivedLifesign s now l) \<noteq> LossOfCommunication"
    using assms by (rule update_keeps_no_loss)
  show "m_error (snd (decode s b n now)) \<noteq> LossOfCommunication"
    by (simp add: decode_def Let_def split: option.split)
  show "m_error (snd (snd (encode s b n))) \<noteq> LossOfCommunication"
    by (simp add: encode_def Let_def split: option.split prod.split)
qed (use assms in \<open>simp_all add: setUniqueId_def setDataPointer_def setCommTimeout_def
      setExpectedInterval_def resetCommMonitor_def AppPacket_ctor_def Let_def\<close>)

subsection \<open>Ring buffer\<close>

lemma push_fails_iff:
  "\<not> fst (push MaxPacketSize Capacity rb src len)
     \<longleftrightarrow> len > MaxPacketSize \<or> (m_writeIdx rb + 1) mod Capacity = m_readIdx rb"
  by (simp add: push_def Let_def)

lemma push_success_state:
  assumes "len \<le> MaxPacketSize" and "(m_writeIdx rb + 1) mod Capacity \<noteq> m_readIdx rb"
  shows "m_writeIdx (snd (push MaxPacketSize Capacity rb src len)) = (m_writeIdx rb + 1) mod Capacity"
    and "m_readIdx (snd (push MaxPacketSize Capacity rb src len)) = m_readIdx rb"
  using assms by (simp_all add: push_def Let_def)

lemma push_failure_state:
  assumes "\<not> fst (push MaxPacketSize Capacity rb src len)"
  shows "snd (push MaxPacketSize Capacity rb src len) = rb"
  using assms by (simp add: push_def Let_def split: if_splits)

lemma full_iff_size:
  assumes "m_writeIdx rb < Capacity" and "m_readIdx rb < Capacity"
  shows "(m_writeIdx rb + 1) mod Capacity = m_readIdx rb \<longleftrightarrow> size_rb Capacity rb = Capacity - 1"
proof (cases "m_writeIdx rb + 1 = Capacity")
  case True
  with assms show ?thesis
    by (auto simp add: size_rb_def Let_def)
next
  case False
  with assms have lt: "m_writeIdx rb + 1 < Capacity" by simp
  then have "(m_writeIdx rb + 1) mod Capacity = m_writeIdx rb + 1" by simp
  with assms lt show ?thesis
    by (auto simp add: size_rb_def Let_def)
qed

lemma size_rb_less:
  assumes "m_writeIdx rb < Capacity" and "m_readIdx rb < Capacity"
  shows "size_rb Capacity rb < Capacity"
  using assms by (auto simp add: size_rb_def Let_def)

lemma push_success_size:
  assumes w: "m_writeIdx rb < Capacity" and r: "m_readIdx rb < Capacity"
    and len: "len \<le> MaxPacketSize" and free: "(m_writeIdx rb + 1) mod Capacity \<noteq> m_readIdx rb"
  shows "size_rb Capacity (snd (push MaxPacketSize Capacity rb src len)) = size_rb Capacity rb + 1"
    and "m_writeIdx (snd (push MaxPacketSize Capacity rb src len)) < Capacity"
    and "m_readIdx (snd (push MaxPacketSize Capacity rb src len)) < Capacity"
proof -
  note st = push_success_state [OF len free, of src]
  show "m_writeIdx (snd (push MaxPacketSize Capacity rb src len)) < Capacity"
    using w by (simp add: st)
  show "m_readIdx (snd (push MaxPacketSize Capacity rb src len)) < Capacity"
    using r by (simp add: st)
  show "size_rb Capacity (snd (push MaxPacketSize Capacity rb src len)) = size_rb Capacity rb + 1"
  proof (cases "m_writeIdx rb + 1 = Capacity")
    case True
    with w r free show ?thesis
      by (auto simp add: size_rb_def Let_def st)
  next
    case False
    with w have lt: "m_writeIdx rb + 1 < Capacity" by simp
    then have "(m_writeIdx rb + 1) mod Capacity = m_writeIdx rb + 1" by simp
    with w r free lt show ?thesis
      by (auto simp add: size_rb_def Let_def st)
  qed
qed

lemma push_all_Cons_fst:
  "fst (push_all MaxPacketSize Capacity rb ((src, len) # ps))
     = fst (push MaxPacketSize Capacity rb src len)
       # fst (push_all MaxPacketSize Capacity (snd (push MaxPacketSize Capacity rb src len)) ps)"
  by (simp split: prod.split)

lemma push_all_flags:
  assumes "m_writeIdx rb < Capacity" and "m_readIdx rb < Capacity"
    and "\<forall>p \<in> set ps. snd p \<le> MaxPacketSize"
  shows "fst (push_all MaxPacketSize Capacity rb ps)
           = map (\<lambda>i. size_rb Capacity rb + i < Capacity - 1) [0..<length ps]"
  using assms
proof (induction ps arbitrary: rb)
  case Nil
  then show ?case by simp
next
  case (Cons p ps)
  obtain src len where p: "p = (src, len)" by (cases p)
  from Cons.prems p have len: "len \<le> MaxPacketSize" by simp
  from Cons.prems have rest: "\<forall>q \<in> set ps. snd q \<le> MaxPacketSize" by simp
  let ?r = "push MaxPacketSize Capacity rb src len"
  have shift: "map f [0..<Suc n] = f 0 # map (\<lambda>i. f (Suc i)) [0..<n]" for f :: "nat \<Rightarrow> bool" and n
    by (simp add: upt_conv_Cons map_Suc_upt [symmetric] del: upt_Suc)
  show ?case
  proof (cases "(m_writeIdx rb + 1) mod Capacity = m_readIdx rb")
    case True
    then have fail: "\<not> fst ?r" using push_fails_iff [of MaxPacketSize Capacity rb src len] by simp
    then have same: "snd ?r = rb" by (rule push_failure_state)
    from True have full: "size_rb Capacity rb = Capacity - 1"
      using full_iff_size [OF Cons.prems(1,2)] by simp
    have "fst (push_all MaxPacketSize Capacity rb ps)
            = map (\<lambda>i. size_rb Capacity rb + i < Capacity - 1) [0..<length ps]"
      using Cons.IH [OF Cons.prems(1,2) rest] .
    with fail same full show ?thesis
      by (simp add: p shift push_all_Cons_fst del: upt_Suc push_all.simps)
  next
    case False
    then have ok: "fst ?r" using push_fails_iff [of MaxPacketSize Capacity rb src len] len by simp
    note sz = push_success_size [OF Cons.prems(1,2) len False, of src]
    from False have nfull: "size_rb Capacity rb \<noteq> Capacity - 1"
      using full_iff_size [OF Cons.prems(1,2)] by simp
    with size_rb_less [OF Cons.prems(1,2)] have lt: "size_rb Capacity rb < Capacity - 1" by simp
    have "fst (push_all MaxPacketSize Capacity (snd ?r) ps)
            = map (\<lambda>i. size_rb Capacity (snd ?r) + i < Capacity - 1) [0..<length ps]"
      using Cons.IH [OF sz(2,3) rest] .
    with ok lt sz(1) show ?thesis
      by (simp add: p shift push_all_Cons_fst del: upt_Suc push_all.simps)
  qed
qed


text \<open>
  C7. SPSC fullness. \<^verbatim>\<open>push\<close> returns false iff the requested length exceeds
  MaxPacketSize = 2048 or (write_idx + 1) mod Capacity = read_idx at the call. With
  Capacity = 1024, pushes of valid-length packets into an empty buffer with no pop in
  between succeed exactly for the first 1023 and fail from the 1024th on.
\<close>

theorem push_fullness:
  assumes empty: "isEmpty rb" and idx: "m_readIdx rb < 1024"
    and valid: "\<forall>p \<in> set ps. snd p \<le> 2048"
  shows "(\<not> fst (push 2048 1024 rb0 src len)
            \<longleftrightarrow> 2048 < len \<or> (m_writeIdx rb0 + 1) mod 1024 = m_readIdx rb0)
         \<and> fst (push_all 2048 1024 rb ps) = map (\<lambda>i. i < 1023) [0..<length ps]"
proof -
  from empty idx have w: "m_writeIdx rb < 1024" and z: "size_rb 1024 rb = 0"
    by (simp_all add: isEmpty_def size_rb_def)
  have "fst (push_all 2048 1024 rb ps) = map (\<lambda>i. size_rb 1024 rb + i < 1024 - 1) [0..<length ps]"
    using w idx valid by (rule push_all_flags)
  then show ?thesis
    using push_fails_iff [of 2048 1024 rb0 src len] by (simp add: z)
qed

theorem push_fullness_witness:
  "isEmpty (LockFreeRingBuffer_ctor (replicate 1024 \<lparr>pkt_length = 0, pkt_data = replicate 2048 0\<rparr>))
   \<and> m_readIdx (LockFreeRingBuffer_ctor (replicate 1024 \<lparr>pkt_length = 0, pkt_data = replicate 2048 0\<rparr>)) < 1024
   \<and> list_all (\<lambda>p. snd p \<le> 2048) (replicate 1025 ([1, 2, 3 :: byte], 3 :: nat))
   \<and> fst (push_all 2048 1024
             (LockFreeRingBuffer_ctor (replicate 1024 \<lparr>pkt_length = 0, pkt_data = replicate 2048 0\<rparr>))
             (replicate 1025 ([1, 2, 3], 3)))
       = map (\<lambda>i. i < 1023) [0..<1025]
   \<and> \<not> fst (push 2048 1024
               (LockFreeRingBuffer_ctor (replicate 1024 \<lparr>pkt_length = 0, pkt_data = replicate 2048 0\<rparr>))
               (replicate 2049 0) 2049)"
proof -
  let ?rb = "LockFreeRingBuffer_ctor (replicate 1024 \<lparr>pkt_length = 0, pkt_data = replicate 2048 0\<rparr>)"
  let ?ps = "replicate 1025 ([1, 2, 3 :: byte], 3 :: nat)"
  have h1: "isEmpty ?rb"
    by (simp add: isEmpty_def LockFreeRingBuffer_ctor_def)
  have h2: "m_readIdx ?rb < 1024"
    by (simp add: LockFreeRingBuffer_ctor_def)
  have h3: "\<forall>p \<in> set ?ps. snd p \<le> 2048"
    by simp
  show ?thesis
    using push_fullness [OF h1 h2 h3, where len = 2049 and ?rb0.0 = ?rb and src = "replicate 2049 0"]
      h1 h2 h3
    by (simp add: list_all_iff)
qed

text \<open>
  C10. For every non-empty buffer, \<^verbatim>\<open>pop\<close> with an output region smaller than the length
  stored in the head slot returns false and leaves the buffer (read index and slots) and
  the output region as they were, but sets \<open>actualLength\<close> to the stored length; a later
  \<^verbatim>\<open>pop\<close> with a large enough region returns true and delivers that same packet.
\<close>

theorem pop_small_region_keeps_head:
  assumes nonempty: "m_readIdx rb \<noteq> m_writeIdx rb"
    and small: "maxLength < unat (pkt_length (m_buffer rb ! m_readIdx rb))"
    and large: "unat (pkt_length (m_buffer rb ! m_readIdx rb)) \<le> maxLength'"
  shows "pop Capacity rb dst maxLength actualLength
           = (False, dst, unat (pkt_length (m_buffer rb ! m_readIdx rb)), rb)
         \<and> pop Capacity (snd (snd (snd (pop Capacity rb dst maxLength actualLength))))
               dst' maxLength' actualLength'
           = (True,
              take (unat (pkt_length (m_buffer rb ! m_readIdx rb)))
                   (pkt_data (m_buffer rb ! m_readIdx rb))
                @ drop (unat (pkt_length (m_buffer rb ! m_readIdx rb))) dst',
              unat (pkt_length (m_buffer rb ! m_readIdx rb)),
              rb\<lparr>m_readIdx := (m_readIdx rb + 1) mod Capacity\<rparr>)"
  using assms by (simp add: pop_def Let_def)

theorem pop_small_region_keeps_head_witness:
  "m_readIdx \<lparr>m_buffer = [\<lparr>pkt_length = 3, pkt_data = [7, 8, 9, 0]\<rparr>,
                             \<lparr>pkt_length = 0, pkt_data = [0, 0, 0, 0]\<rparr>],
                 m_writeIdx = 1, m_readIdx = 0\<rparr>
     \<noteq> m_writeIdx \<lparr>m_buffer = [\<lparr>pkt_length = 3, pkt_data = [7, 8, 9, 0]\<rparr>,
                             \<lparr>pkt_length = 0, pkt_data = [0, 0, 0, 0]\<rparr>],
                   m_writeIdx = 1, m_readIdx = 0\<rparr>
   \<and> pop 2 \<lparr>m_buffer = [\<lparr>pkt_length = 3, pkt_data = [7, 8, 9, 0]\<rparr>,
                         \<lparr>pkt_length = 0, pkt_data = [0, 0, 0, 0]\<rparr>],
             m_writeIdx = 1, m_readIdx = 0\<rparr> [5, 5] 2 0
       = (False, [5, 5], 3,
          \<lparr>m_buffer = [\<lparr>pkt_length = 3, pkt_data = [7, 8, 9, 0]\<rparr>,
                       \<lparr>pkt_length = 0, pkt_data = [0, 0, 0, 0]\<rparr>],
           m_writeIdx = 1, m_readIdx = 0\<rparr>)
   \<and> pop 2 (snd (snd (snd (pop 2 \<lparr>m_buffer = [\<lparr>pkt_length = 3, pkt_data = [7, 8, 9, 0]\<rparr>,
                         \<lparr>pkt_length = 0, pkt_data = [0, 0, 0, 0]\<rparr>],
             m_writeIdx = 1, m_readIdx = 0\<rparr> [5, 5] 2 0)))) [6, 6, 6, 6] 4 3
       = (True, [7, 8, 9, 6], 3,
          \<lparr>m_buffer = [\<lparr>pkt_length = 3, pkt_data = [7, 8, 9, 0]\<rparr>,
                       \<lparr>pkt_length = 0, pkt_data = [0, 0, 0, 0]\<rparr>],
           m_writeIdx = 1, m_readIdx = 1\<rparr>)"
proof -
  let ?rb = "\<lparr>m_buffer = [\<lparr>pkt_length = 3, pkt_data = [7, 8, 9, 0]\<rparr>,
                          \<lparr>pkt_length = 0, pkt_data = [0, 0, 0, 0]\<rparr>],
              m_writeIdx = 1, m_readIdx = 0\<rparr>"
  have h1: "m_readIdx ?rb \<noteq> m_writeIdx ?rb"
    by simp
  have h2: "2 < unat (pkt_length (m_buffer ?rb ! m_readIdx ?rb))"
    by simp
  have h3: "unat (pkt_length (m_buffer ?rb ! m_readIdx ?rb)) \<le> 4"
    by simp
  note t = pop_small_region_keeps_head [OF h1 h2 h3, of 2 "[5, 5]" 0 "[6, 6, 6, 6]" 3]
  from t [THEN conjunct1] have a: "pop 2 ?rb [5, 5] 2 0 = (False, [5, 5], 3, ?rb)"
    by simp
  from t [THEN conjunct2]
  have b: "pop 2 (snd (snd (snd (pop 2 ?rb [5, 5] 2 0)))) [6, 6, 6, 6] 4 3
             = (True, [7, 8, 9, 6], 3,
                \<lparr>m_buffer = [\<lparr>pkt_length = 3, pkt_data = [7, 8, 9, 0]\<rparr>,
                             \<lparr>pkt_length = 0, pkt_data = [0, 0, 0, 0]\<rparr>],
                 m_writeIdx = 1, m_readIdx = 1\<rparr>)"
    by simp
  from h1 a b show ?thesis
    by (intro conjI)
qed

subsection \<open>Latency sampler: the snapshot\<close>

text \<open>The slots in insertion order, oldest first, read from the write position round.\<close>

lemma ring_step:
  assumes len: "length xs = C" and w: "w < C"
  shows "drop ((w + 1) mod C) (xs[w := x]) @ take ((w + 1) mod C) (xs[w := x])
           = tl (drop w xs @ take w xs) @ [x]"
proof -
  from len w have ne: "drop w xs \<noteq> []"
    by simp
  have tlw: "tl (drop w xs @ take w xs) = drop (Suc w) xs @ take w xs"
    using ne by (simp add: drop_Suc tl_drop)
  show ?thesis
  proof (cases "w + 1 = C")
    case True
    with len have "take w (xs[w := x]) @ [x] = xs[w := x]"
      by (metis Suc_eq_plus1 length_list_update lessI nth_list_update_eq take_Suc_conv_app_nth
          take_all_iff order_refl)
    moreover have "take w (xs[w := x]) = take w xs"
      by simp
    ultimately show ?thesis
      using True len tlw by simp
  next
    case False
    with w have lt: "w + 1 < C"
      by simp
    then have m: "Suc w mod C = Suc w"
      by simp
    have "take (Suc w) (xs[w := x]) = take w xs @ [x]"
      using len w by (simp add: take_Suc_conv_app_nth)
    then show ?thesis
      using tlw by (simp add: m)
  qed
qed

lemma drop_Suc_snoc:
  assumes "n < length ys"
  shows "drop (Suc n) (ys @ [x]) = tl (drop n ys) @ [x]"
  using assms by (simp add: drop_Suc tl_drop)

lemma record_all_snoc:
  "record_all C st (xs @ [x]) = recordSample C (record_all C st xs) x"
  by (simp add: record_all_def)

lemma record_all_invariant:
  assumes C: "0 < C"
  shows "length (m_samples (record_all C (LatencyStats_ctor C) xs)) = C
         \<and> m_writeIdx_stats (record_all C (LatencyStats_ctor C) xs) = length xs mod C
         \<and> m_count (record_all C (LatencyStats_ctor C) xs) = length xs
         \<and> drop (length xs mod C) (m_samples (record_all C (LatencyStats_ctor C) xs))
             @ take (length xs mod C) (m_samples (record_all C (LatencyStats_ctor C) xs))
           = drop (length xs) (replicate C 0 @ xs)"
proof (induction xs rule: rev_induct)
  case Nil
  then show ?case
    by (simp add: record_all_def LatencyStats_ctor_def)
next
  case (snoc x xs)
  let ?st = "record_all C (LatencyStats_ctor C) xs"
  let ?w = "length xs mod C"
  from snoc have len: "length (m_samples ?st) = C" and idx: "m_writeIdx_stats ?st = ?w"
    and cnt: "m_count ?st = length xs"
    and ring: "drop ?w (m_samples ?st) @ take ?w (m_samples ?st)
                 = drop (length xs) (replicate C 0 @ xs)"
    by simp_all
  have w: "?w < C"
    using C by simp
  have next_idx: "(?w + 1) mod C = Suc (length xs) mod C"
    by (simp add: mod_Suc_eq)
  have "drop (Suc (length xs)) (replicate C 0 @ xs @ [x])
          = tl (drop (length xs) (replicate C 0 @ xs)) @ [x]"
    using C drop_Suc_snoc [of "length xs" "replicate C 0 @ xs" x] by simp
  with ring_step [OF len w, of x] ring
  have "drop ((?w + 1) mod C) ((m_samples ?st)[?w := x])
          @ take ((?w + 1) mod C) ((m_samples ?st)[?w := x])
        = drop (Suc (length xs)) (replicate C 0 @ xs @ [x])"
    by simp
  then show ?case
    using len idx cnt next_idx
    by (simp add: record_all_snoc recordSample_def Let_def)
qed


text \<open>
  C9. Latency wrap correctness. After recording a sequence of samples into a fresh sampler
  of capacity C, one after the other, the snapshot that \<^verbatim>\<open>computeStats\<close> takes holds, in
  insertion order, exactly the last C samples recorded when at least C were recorded, and
  exactly all of them otherwise; it is the slots [0, total) while total < C and the slots
  [write_idx, C) followed by [0, write_idx) from total = C on.
\<close>

theorem snapshot_last_samples:
  assumes C: "0 < C"
  shows "snapshot C (record_all C (LatencyStats_ctor C) xs) = drop (length xs - C) xs
         \<and> snapshot C (record_all C (LatencyStats_ctor C) xs)
             = (if length xs < C
                then take (length xs) (m_samples (record_all C (LatencyStats_ctor C) xs))
                else drop (m_writeIdx_stats (record_all C (LatencyStats_ctor C) xs))
                          (m_samples (record_all C (LatencyStats_ctor C) xs))
                     @ take (m_writeIdx_stats (record_all C (LatencyStats_ctor C) xs))
                          (m_samples (record_all C (LatencyStats_ctor C) xs)))
         \<and> length (snapshot C (record_all C (LatencyStats_ctor C) xs)) = min (length xs) C"
proof -
  let ?st = "record_all C (LatencyStats_ctor C) xs"
  let ?n = "length xs"
  let ?w = "?n mod C"
  note inv = record_all_invariant [OF C, of xs]
  from inv have len: "length (m_samples ?st) = C" and idx: "m_writeIdx_stats ?st = ?w"
    and ring: "drop ?w (m_samples ?st) @ take ?w (m_samples ?st) = drop ?n (replicate C 0 @ xs)"
    by simp_all
  from inv have total: "m_count ?st = ?n"
    by simp
  show ?thesis
  proof (cases "?n < C")
    case True
    then have "drop ?n (m_samples ?st) @ take ?n (m_samples ?st) = replicate (C - ?n) 0 @ xs"
      using ring by simp
    moreover have "length (drop ?n (m_samples ?st)) = length (replicate (C - ?n) (0 :: 64 word))"
      using len by simp
    ultimately have "take ?n (m_samples ?st) = xs"
      using append_eq_append_conv [of "drop ?n (m_samples ?st)" "replicate (C - ?n) 0"
          "take ?n (m_samples ?st)" xs]
      by blast
    with True show ?thesis
      by (simp add: snapshot_def Let_def total)
  next
    case False
    then have ge: "C \<le> ?n"
      by simp
    then have rot: "drop ?w (m_samples ?st) @ take ?w (m_samples ?st) = drop (?n - C) xs"
      using ring by simp
    show ?thesis
    proof (cases "?n = C")
      case True
      with C rot len have "m_samples ?st = xs"
        by simp
      with True C show ?thesis
        by (simp add: snapshot_def Let_def total idx)
    next
      case neq: False
      with ge have "C < ?n"
        by simp
      with rot show ?thesis
        by (simp add: snapshot_def Let_def total idx)
    qed
  qed
qed

theorem snapshot_last_samples_witness:
  "(0 :: nat) < 3
   \<and> snapshot 3 (record_all 3 (LatencyStats_ctor 3) [10, 20, 30, 40, 50]) = [30, 40, 50]
   \<and> length (snapshot 3 (record_all 3 (LatencyStats_ctor 3) [10, 20, 30, 40, 50])) = 3"
proof -
  have h1: "(0 :: nat) < 3"
    by simp
  show ?thesis
    using snapshot_last_samples [OF h1, of "[10, 20, 30, 40, 50]"]
    by simp
qed

subsection \<open>Latency sampler: statistics in double arithmetic\<close>

lemma ilog2_ge_1:
  assumes "1 \<le> x"
  shows "ilog2 x = \<lfloor>log 2 x\<rfloor>"
proof -
  let ?n = "nat \<lfloor>x\<rfloor>"
  have f1: "1 \<le> \<lfloor>x\<rfloor>"
    using assms by (simp add: le_floor_iff)
  then have n: "0 < ?n" "1 \<le> real ?n"
    by simp_all
  have rn: "real ?n = of_int \<lfloor>x\<rfloor>"
    using f1 by simp
  have fl: "int (floorlog 2 ?n) - 1 = \<lfloor>log 2 (real ?n)\<rfloor>"
    using n by (simp add: floorlog_def)
  have r: "0 \<le> x - real ?n" "x - real ?n < 1"
    unfolding rn by linarith+
  have "\<lfloor>log 2 (real ?n + (x - real ?n))\<rfloor> = \<lfloor>log 2 (real ?n)\<rfloor>"
    using floor_log_add_eqI [of 2 ?n "x - real ?n"] n r by simp
  then have "\<lfloor>log 2 x\<rfloor> = \<lfloor>log 2 (real ?n)\<rfloor>"
    by simp
  with fl assms show ?thesis
    by (simp add: ilog2_def)
qed

lemma ilog2_less_1:
  assumes pos: "0 < x" and lt: "x < 1"
  shows "ilog2 x = \<lfloor>log 2 x\<rfloor>"
proof -
  let ?m = "\<lceil>1 / x\<rceil>"
  let ?k = "floorlog 2 (nat (?m - 1))"
  have y: "1 < 1 / x"
    using pos lt by simp
  then have m2: "2 \<le> ?m"
    by (simp add: le_ceiling_iff)
  then have m1: "0 < nat (?m - 1)"
    by simp
  from floorlog_bounds [OF m1, of 2]
  have lo: "2 ^ (?k - 1) \<le> nat (?m - 1)" and hi: "nat (?m - 1) < 2 ^ ?k"
    by simp_all
  have k1: "1 \<le> ?k"
    using m1 by (simp add: floorlog_def)
  from hi m2 have "?m - 1 < 2 ^ ?k"
    by (simp add: nat_less_iff)
  then have "?m \<le> 2 ^ ?k"
    by simp
  then have "1 / x \<le> 2 ^ ?k"
    by (metis ceiling_le_iff of_int_numeral of_int_power)
  then have lower: "1 / 2 ^ ?k \<le> x"
    using pos by (simp add: field_simps)
  from lo m2 have "2 ^ (?k - 1) \<le> ?m - 1"
    by (simp add: le_nat_iff)
  then have "2 ^ (?k - 1) < ?m"
    by simp
  then have "2 ^ (?k - 1) < 1 / x"
    by (metis less_ceiling_iff of_int_numeral of_int_power)
  then have upper: "x < 1 / 2 ^ (?k - 1)"
    using pos by (simp add: field_simps)
  have p1: "2 powr real_of_int (- int ?k) = 1 / 2 ^ ?k"
    by (simp add: powr_minus powr_realpow divide_inverse)
  have "- int ?k + 1 = - int (?k - 1)"
    using k1 by simp
  then have p2: "2 powr real_of_int (- int ?k + 1) = 1 / 2 ^ (?k - 1)"
    by (simp only: of_int_minus of_int_of_nat_eq powr_minus powr_realpow)
      (simp add: divide_inverse)
  have "\<lfloor>log 2 x\<rfloor> = - int ?k"
    using lower upper pos by (simp only: floor_log_eq_powr_iff p1 p2)
  with lt show ?thesis
    by (simp add: ilog2_def)
qed

text \<open>\<open>ilog2\<close> is the integer binary logarithm.\<close>

lemma ilog2_floor_log:
  assumes "0 < x"
  shows "ilog2 x = \<lfloor>log 2 x\<rfloor>"
  using assms ilog2_ge_1 [of x] ilog2_less_1 [of x] by (cases "1 \<le> x") simp_all


lemma round_half_even_error: "\<bar>of_int (round_half_even m) - m\<bar> \<le> 1 / 2"
proof -
  have "of_int \<lfloor>m\<rfloor> \<le> m" "m < of_int \<lfloor>m\<rfloor> + 1"
    by linarith+
  then show ?thesis
    by (auto simp add: round_half_even_def Let_def)
qed

text \<open>
  \<open>to_double x\<close> is a number with an integer significand between 2^52 and 2^53 at the
  exponent \<open>ilog2 \<bar>x\<bar> - 52\<close>, and it is within half a unit in the last place of \<open>x\<close>.
\<close>

lemma to_double_significand:
  assumes "x \<noteq> 0"
  defines "e \<equiv> ilog2 \<bar>x\<bar> - 52"
  defines "m \<equiv> round_half_even (\<bar>x\<bar> / 2 powr real_of_int e)"
  shows "to_double x = sgn x * of_int m * 2 powr real_of_int e"
    and "2 ^ 52 \<le> m" and "m \<le> 2 ^ 53"
    and "\<bar>to_double x - x\<bar> \<le> 2 powr real_of_int e / 2"
proof -
  let ?a = "\<bar>x\<bar>"
  let ?p = "2 powr real_of_int e"
  have a: "0 < ?a"
    using assms by simp
  have p: "0 < ?p"
    by simp
  have pw: "?p = (if 0 \<le> e then 2 ^ nat e else 1 / 2 ^ nat (- e))"
    by (simp add: powr_int)
  show td: "to_double x = sgn x * of_int m * ?p"
    using assms(1) by (simp add: to_double_def Let_def m_def e_def [symmetric] pw)
  have "\<lfloor>log 2 ?a\<rfloor> = e + 52"
    using ilog2_floor_log [OF a] by (simp add: e_def)
  then have b: "2 powr real_of_int (e + 52) \<le> ?a" "?a < 2 powr real_of_int (e + 52 + 1)"
    using a by (simp_all add: floor_log_eq_powr_iff)
  have split: "2 powr real_of_int (e + k) = ?p * 2 ^ nat k" if "0 \<le> k" for k
    using that by (simp add: powr_add powr_realpow [symmetric])
  from b have lo: "2 ^ 52 \<le> ?a / ?p" and hi: "?a / ?p < 2 ^ 53"
    using p split [of 52] split [of 53] by (simp_all add: field_simps)
  note err = round_half_even_error [of "?a / ?p"]
  have fl: "2 ^ 52 \<le> \<lfloor>?a / ?p\<rfloor>"
    using lo by (simp add: le_floor_iff)
  have fu: "\<lfloor>?a / ?p\<rfloor> < 2 ^ 53"
    using hi by (simp add: floor_less_iff)
  show "2 ^ 52 \<le> m" and "m \<le> 2 ^ 53"
    using fl fu by (auto simp add: m_def round_half_even_def Let_def)
  have "to_double x - x = sgn x * (of_int m - ?a / ?p) * ?p"
    using p by (simp add: td field_simps abs_sgn)
  then have "\<bar>to_double x - x\<bar> = \<bar>of_int m - ?a / ?p\<bar> * ?p"
    using assms(1) p by (simp add: abs_mult abs_sgn_eq)
  also have "\<dots> \<le> 1 / 2 * ?p"
    using err p unfolding m_def by (intro mult_right_mono) simp_all
  finally show "\<bar>to_double x - x\<bar> \<le> ?p / 2"
    by simp
qed

lemma round_half_even_of_int: "round_half_even (of_int z) = z"
  by (simp add: round_half_even_def)

lemma ilog2_nat_le:
  assumes "0 < n" and "n < 2 ^ 53"
  shows "ilog2 (real n) \<le> 52"
proof -
  have "floorlog 2 n \<le> 53"
    using assms by (intro floorlog_leI) simp_all
  moreover have "1 \<le> real n"
    using assms by simp
  ultimately show ?thesis
    by (simp add: ilog2_def)
qed

lemma to_double_nat_exact:
  assumes "n < 2 ^ 53"
  shows "to_double (real n) = real n"
proof (cases "n = 0")
  case True
  then show ?thesis
    by (simp add: to_double_def)
next
  case False
  then have pos: "0 < n"
    by simp
  let ?e = "ilog2 \<bar>real n\<bar> - 52"
  have e: "?e \<le> 0"
    using ilog2_nat_le [OF pos assms] by simp
  have scaled: "real n * 2 ^ k = of_int (int n * 2 ^ k)" for k
    by simp
  show ?thesis
  proof (cases "?e = 0")
    case True
    have "round_half_even (real n) = int n"
      using round_half_even_of_int [of "int n"] by simp
    with True pos show ?thesis
      by (simp add: to_double_def Let_def)
  next
    case neg: False
    with e have lt: "\<not> 0 \<le> ?e"
      by simp
    have "round_half_even (real n * 2 ^ nat (- ?e)) = int n * 2 ^ nat (- ?e)"
      using round_half_even_of_int [of "int n * 2 ^ nat (- ?e)"] by (simp only: scaled)
    with lt pos show ?thesis
      by (simp add: to_double_def Let_def)
  qed
qed


lemma length_known_samples: "length known_samples = 100000"
  by (simp add: known_samples_def)

lemma nth_known_samples:
  assumes "i < 100000"
  shows "known_samples ! i = word_of_nat (1000 * (i + 1))"
  using assms by (simp add: known_samples_def)

lemma unat_known_samples:
  assumes "i < 100000"
  shows "unat (known_samples ! i) = 1000 * (i + 1)"
proof -
  have "1000 * (i + 1) < (2 :: nat) ^ 64"
    using assms by simp
  then show ?thesis
    using assms by (simp add: nth_known_samples unat_of_nat del: of_nat_mult of_nat_add)
qed

lemma us_known_samples:
  assumes "i < 100000"
  shows "d_div (d_of_u64 (known_samples ! i)) 1000 = real (i + 1)"
proof -
  have "1000 * (i + 1) < (2 :: nat) ^ 53"
    using assms by simp
  then have "d_of_u64 (known_samples ! i) = real (1000 * (i + 1))"
    using assms by (simp only: d_of_u64_def unat_known_samples to_double_nat_exact)
  moreover have "real (1000 * (i + 1)) / 1000 = real (i + 1)"
    by simp
  moreover have "to_double (real (i + 1)) = real (i + 1)"
    using assms by (intro to_double_nat_exact) simp
  ultimately show ?thesis
    by (simp only: d_div_def)
qed

lemma sorted_known_samples: "sorted known_samples"
proof -
  have "known_samples ! i \<le> known_samples ! j" if "i \<le> j" and "j < length known_samples" for i j
  proof -
    from that have i: "i < 100000" and j: "j < 100000"
      by (simp_all add: length_known_samples)
    from that show ?thesis
      by (simp add: word_le_nat_alt unat_known_samples [OF i] unat_known_samples [OF j])
  qed
  then show ?thesis
    by (simp add: sorted_iff_nth_mono)
qed

lemma sort_known_samples: "sort known_samples = known_samples"
  using sorted_known_samples by (rule sorted_sort_id)


lemma d_add_nat_exact:
  assumes "a + b < 2 ^ 53"
  shows "d_add (real a) (real b) = real (a + b)"
proof -
  have "to_double (real (a + b)) = real (a + b)"
    using assms by (rule to_double_nat_exact)
  then show ?thesis
    by (simp add: d_add_def)
qed

lemma triangle_bound:
  fixes n :: nat
  assumes "n \<le> 100000"
  shows "n * (n + 1) div 2 + (n + 1) < 2 ^ 53"
proof -
  have "n * (n + 1) \<le> 100000 * 100001"
    using assms by (intro mult_mono) simp_all
  then have "n * (n + 1) div 2 \<le> 100000 * 100001"
    using div_le_dividend [of "n * (n + 1)" 2] by linarith
  with assms show ?thesis
    by simp
qed

lemma sum_loop_known:
  assumes "n \<le> 100000"
  shows "foldl (\<lambda>sum i. d_add sum (d_div (d_of_u64 (known_samples ! i)) 1000)) 0 [0..<n]
           = real (n * (n + 1) div 2)"
  using assms
proof (induction n)
  case 0
  then show ?case
    by simp
next
  case (Suc n)
  then have n: "n < 100000" and le: "n \<le> 100000"
    by simp_all
  have step: "n * (n + 1) div 2 + (n + 1) = Suc n * (Suc n + 1) div 2"
    by simp
  have "d_add (real (n * (n + 1) div 2)) (real (n + 1)) = real (n * (n + 1) div 2 + (n + 1))"
    using triangle_bound [OF le] by (rule d_add_nat_exact)
  with Suc.IH [OF le] us_known_samples [OF n] step show ?case
    by (simp del: of_nat_add of_nat_mult of_nat_Suc)
qed


lemma snapshot_unwrapped:
  assumes C: "0 < C" and le: "length xs \<le> C"
  shows "snapshot C (record_all C (LatencyStats_ctor C) xs) = xs"
    and "m_count (record_all C (LatencyStats_ctor C) xs) = length xs"
proof -
  let ?st = "record_all C (LatencyStats_ctor C) xs"
  let ?n = "length xs"
  note inv = record_all_invariant [OF C, of xs]
  from inv have len: "length (m_samples ?st) = C"
    and ring: "drop (?n mod C) (m_samples ?st) @ take (?n mod C) (m_samples ?st)
                 = drop ?n (replicate C 0 @ xs)"
    by simp_all
  from inv show total: "m_count ?st = ?n"
    by simp
  show "snapshot C ?st = xs"
  proof (cases "?n < C")
    case True
    then have "drop ?n (m_samples ?st) @ take ?n (m_samples ?st) = replicate (C - ?n) 0 @ xs"
      using ring by simp
    moreover have "length (drop ?n (m_samples ?st)) = length (replicate (C - ?n) (0 :: 64 word))"
      using len by simp
    ultimately have "take ?n (m_samples ?st) = xs"
      using append_eq_append_conv [of "drop ?n (m_samples ?st)" "replicate (C - ?n) 0"
          "take ?n (m_samples ?st)" xs]
      by blast
    with True show ?thesis
      by (simp add: snapshot_def Let_def total)
  next
    case False
    with le have eq: "?n = C"
      by simp
    with C ring len have "m_samples ?st = xs"
      by simp
    with eq show ?thesis
      by (simp add: snapshot_def Let_def total)
  qed
qed

lemma percentile_known_samples:
  assumes rank: "nat \<lceil>d_mul (d_div p 100) 100000\<rceil> = k" and pos: "0 < k" and le: "k \<le> 100000"
  shows "percentile known_samples p = real k"
proof -
  have n: "d_of_nat 100000 = 100000"
    using to_double_nat_exact [of 100000] by (simp add: d_of_nat_def)
  have ne: "known_samples \<noteq> []"
    using length_known_samples by auto
  from pos le have i: "k - 1 < 100000" and k: "k - 1 + 1 = k"
    by simp_all
  have "percentile known_samples p = d_div (d_of_u64 (known_samples ! (k - 1))) 1000"
    using rank pos le ne by (simp add: percentile_def Let_def n length_known_samples)
  also have "\<dots> = real (k - 1 + 1)"
    using i by (rule us_known_samples)
  finally show ?thesis
    by (simp only: k)
qed

lemma ranks_known:
  "nat \<lceil>d_mul (d_div (to_double 50) 100) 100000\<rceil> = 50000"
  "nat \<lceil>d_mul (d_div (to_double 95) 100) 100000\<rceil> = 95000"
  "nat \<lceil>d_mul (d_div (to_double 99) 100) 100000\<rceil> = 99000"
  "nat \<lceil>d_mul (d_div (to_double (999 / 10)) 100) 100000\<rceil> = 99901"
  "nat \<lceil>d_mul (d_div (to_double (9999 / 100)) 100) 100000\<rceil> = 99990"
  by (simp_all add: d_mul_def d_div_def to_double_def ilog2_def compute_floorlog
        round_half_even_def Let_def)

lemma percentiles_known_samples:
  "percentile known_samples (to_double 50) = 50000"
  "percentile known_samples (to_double 95) = 95000"
  "percentile known_samples (to_double 99) = 99000"
  "percentile known_samples (to_double (999 / 10)) = 99901"
  "percentile known_samples (to_double (9999 / 100)) = 99990"
  using percentile_known_samples [OF ranks_known(1)] percentile_known_samples [OF ranks_known(2)]
    percentile_known_samples [OF ranks_known(3)] percentile_known_samples [OF ranks_known(4)]
    percentile_known_samples [OF ranks_known(5)]
  by simp_all

text \<open>
  C8. On the known distribution (100000 samples 1 us, 2 us, ..., 100000 us recorded into
  a fresh sampler of the default capacity) \<^verbatim>\<open>computeStats\<close> yields min 1, max 100000,
  mean 50000.5, p50 50000, p95 95000, p99 99000 and p99.99 99990 us, but p99.9 is
  99901 us: \<^verbatim>\<open>(99.9 / 100.0) * 100000.0\<close> is 99900.00000000001 in double arithmetic and its
  ceiling is 99901, while the nearest-rank index min(n, max(1, ceil(p * n / 100))) is
  99900.
\<close>

theorem computeStats_known_distribution:
  "computeStats 100000 (record_all 100000 (LatencyStats_ctor 100000) known_samples)
     = \<lparr> count = 100000, min_us = 1, max_us = 100000, mean_us = 100001 / 2,
         p50_us = 50000, p95_us = 95000, p99_us = 99000, p999_us = 99901, p9999_us = 99990 \<rparr>
   \<and> nearest_rank (999 / 10) 100000 = 99900"
proof -
  let ?st = "record_all 100000 (LatencyStats_ctor 100000) known_samples"
  have le: "length known_samples \<le> 100000"
    by (simp add: length_known_samples)
  have snap: "snapshot 100000 ?st = known_samples"
    using snapshot_unwrapped(1) [OF _ le] by simp
  have total: "m_count ?st = 100000"
    using snapshot_unwrapped(2) [OF _ le] by (simp add: length_known_samples)
  have ne: "known_samples \<noteq> []"
    using length_known_samples by auto
  have first: "d_div (d_of_u64 (hd known_samples)) 1000 = 1"
    using us_known_samples [of 0] ne by (simp add: hd_conv_nth)
  have final: "d_div (d_of_u64 (last known_samples)) 1000 = 100000"
    using us_known_samples [of 99999] ne by (simp add: last_conv_nth length_known_samples)
  have sum: "foldl (\<lambda>sum i. d_add sum (d_div (d_of_u64 (known_samples ! i)) 1000)) 0 [0..<100000]
               = 5000050000"
    using sum_loop_known [of 100000] by simp
  have n: "d_of_nat 100000 = 100000"
    using to_double_nat_exact [of 100000] by (simp add: d_of_nat_def)
  have mean: "d_div 5000050000 100000 = 100001 / 2"
    by (simp add: d_div_def to_double_def ilog2_def compute_floorlog round_half_even_def Let_def)
  have spec_idx: "nearest_rank (999 / 10) 100000 = 99900"
    by (simp add: nearest_rank_def)
  show ?thesis
    using total
    by (simp add: computeStats_def Let_def snap sort_known_samples first final sum n mean
          percentiles_known_samples spec_idx)
qed

text \<open>
  The same rounding at n = 1000: the rank of the 99.9th percentile is computed as
  999.0000000000001, giving index 1000 where the nearest-rank index is 999.
\<close>

lemma rank_999_of_1000:
  "nat \<lceil>d_mul (d_div (to_double (999 / 10)) 100) (d_of_nat 1000)\<rceil> = 1000"
  "nearest_rank (999 / 10) 1000 = 999"
  by (simp_all add: d_mul_def d_div_def d_of_nat_def to_double_def ilog2_def compute_floorlog
        round_half_even_def nearest_rank_def Let_def)

end
